theory Spec2Isabelle
  imports Complex_Main "HOL-Library.Product_Lexorder" "HOL-Library.List_Lexorder"
begin

section \<open>Data model\<close>

text \<open>
  The contractor of \<^verbatim>\<open>src/multi_lib/contractor.cpp\<close> works on types declared in headers
  (\<^verbatim>\<open>graph.hpp\<close>, \<^verbatim>\<open>contractionLP.hpp\<close>, \<^verbatim>\<open>multiqueue.hpp\<close>). The fields below are the ones
  the source file reads and writes. A \<^verbatim>\<open>double\<close> is modelled as a \<open>real\<close>: the comparisons
  and sums of the source are taken on values that are numbers (no NaN, no rounding).
  A \<^verbatim>\<open>Cost\<close> holds \<^verbatim>\<open>Cost::dim\<close> values; the dimension is a parameter \<open>cdim\<close> of every
  function that loops over it. Sizes and counters (\<^verbatim>\<open>size_t\<close>) are natural numbers.
\<close>

type_synonym NodePos = nat
type_synonym NodeId = nat
type_synonym EdgeId = nat
type_synonym Cost = "real list"
type_synonym Config = "real list"

datatype error = invalid_argument string

record HalfEdge =
  he_id :: EdgeId
  he_begin :: NodePos
  he_end :: NodePos
  he_cost :: Cost

record EdgePair =
  pair_in :: HalfEdge
  pair_out :: HalfEdge

record RouteWithCount =
  costs :: Cost
  edges :: "EdgeId list"
  pathCount :: nat

text \<open>
  An edge of the registry. \<open>children\<close> is \<open>None\<close> for an original edge and the pair of
  child edge ids for a shortcut. \<open>destPos\<close> is the position of the destination in the
  graph of the current level. The constructor used by \<^verbatim>\<open>createShortcut\<close> takes source,
  destination and the two children; the id and the positions of a fresh shortcut are
  assigned later by the registry and the next graph, and are 0 until then.
\<close>

record Edge =
  getId :: EdgeId
  getSourceId :: NodeId
  getDestId :: NodeId
  getCost :: Cost
  children :: "(EdgeId \<times> EdgeId) option"
  destPos :: NodePos

subsection \<open>Cost arithmetic\<close>

text \<open>
  Modelled from the spec: the operators of \<^verbatim>\<open>Cost\<close> (declared in \<^verbatim>\<open>graph.hpp\<close>, not part of
  the source file). Section 3 of the specification: addition, subtraction and the scalar
  product with a \<^verbatim>\<open>Config\<close> are pointwise.
\<close>

definition Cost_add :: "Cost \<Rightarrow> Cost \<Rightarrow> Cost" where
  "Cost_add a b = map2 (+) a b"

definition Cost_sub :: "Cost \<Rightarrow> Cost \<Rightarrow> Cost" where
  "Cost_sub a b = map2 (-) a b"

definition Cost_dot :: "Cost \<Rightarrow> Config \<Rightarrow> real" where
  "Cost_dot a c = sum_list (map2 (*) a c)"

text \<open>
  Modelled from the spec: \<^verbatim>\<open>Cost::operator==\<close> (declared in \<^verbatim>\<open>graph.hpp\<close>). Section 3 of the
  specification: a numerical tolerance \<^verbatim>\<open>COST_ACCURACY\<close> governs equality. With tolerance 0
  this is exact equality of the components. The functions of the source file that use
  \<^verbatim>\<open>==\<close> on costs take the comparison as a parameter \<open>ceq\<close>.
\<close>

definition Cost_eq :: "real \<Rightarrow> nat \<Rightarrow> Cost \<Rightarrow> Cost \<Rightarrow> bool" where
  "Cost_eq acc cdim a b = list_all (\<lambda>i. \<bar>a ! i - b ! i\<bar> \<le> acc) [0..<cdim]"

section \<open>The shortest-path probe\<close>

text \<open>
  \<^verbatim>\<open>checkShortestPath\<close> (lines 88-100). \<open>findBestRoute\<close> stands for
  \<^verbatim>\<open>NormalDijkstra::findBestRoute\<close>, an external collaborator: a function from source,
  destination and configuration to an optional route.
\<close>

definition checkShortestPath ::
  "(Cost \<Rightarrow> Cost \<Rightarrow> bool) \<Rightarrow> (NodePos \<Rightarrow> NodePos \<Rightarrow> Config \<Rightarrow> RouteWithCount option) \<Rightarrow>
   HalfEdge \<Rightarrow> HalfEdge \<Rightarrow> Config \<Rightarrow> bool \<times> RouteWithCount option" where
  "checkShortestPath ceq findBestRoute startEdge destEdge conf =
     (let foundRoute = findBestRoute (he_end startEdge) (he_end destEdge) conf in
      case foundRoute of
        None \<Rightarrow> (False, foundRoute)
      | Some route \<Rightarrow>
          (let shortcutCost = Cost_add (he_cost startEdge) (he_cost destEdge);
               isShortest = ceq (costs route) shortcutCost
           in (isShortest, foundRoute)))"

section \<open>Dominance\<close>

text \<open>
  \<^verbatim>\<open>ContractingThread::isDominated\<close> (lines 155-169). The loop runs over the indices
  \<open>0 ..< cdim\<close> with the two flags \<open>dominated\<close> and \<open>someDifferent\<close>, and breaks at the
  first component that exceeds the shortcut's.
\<close>

fun isDominated_loop :: "Cost \<Rightarrow> Cost \<Rightarrow> nat list \<Rightarrow> bool \<Rightarrow> bool \<Rightarrow> bool \<times> bool" where
  "isDominated_loop shortcutCost c [] dominated someDifferent = (dominated, someDifferent)"
| "isDominated_loop shortcutCost c (i # is) dominated someDifferent =
     (if c ! i > shortcutCost ! i then (False, True)
      else isDominated_loop shortcutCost c is dominated
             (if c ! i \<noteq> shortcutCost ! i then True else someDifferent))"

definition isDominated :: "nat \<Rightarrow> Cost \<Rightarrow> Cost \<Rightarrow> bool" where
  "isDominated cdim shortcutCost c =
     (case isDominated_loop shortcutCost c [0..<cdim] True False of
        (dominated, someDifferent) \<Rightarrow> dominated \<and> someDifferent)"

section \<open>Shortcut creation\<close>

text \<open>
  \<^verbatim>\<open>Contractor::createShortcut\<close> (lines 356-365). The message of the exception names the
  external ids of the two edges, which the model leaves out.
\<close>

definition createShortcut :: "Edge \<Rightarrow> Edge \<Rightarrow> error + Edge" where
  "createShortcut e1 e2 =
     (if getDestId e1 \<noteq> getSourceId e2
      then Inl (invalid_argument ''Edges are not connected'')
      else Inr \<lparr> getId = 0, getSourceId = getSourceId e1, getDestId = getDestId e2,
                 getCost = Cost_add (getCost e1) (getCost e2),
                 children = Some (getId e1, getId e2), destPos = 0 \<rparr>)"

section \<open>Statistics\<close>

text \<open>
  \<^verbatim>\<open>StatisticsCollector\<close> (lines 27-86): the counters of one worker. The flag \<^verbatim>\<open>active\<close>
  only decides whether the destructor prints them.
\<close>

datatype CountType = shortestPath | repeatingConfig | unknownReason

record StatisticsCollector =
  active :: bool
  shortCount :: nat
  sameCount :: nat
  unknown :: nat
  lpMax :: nat
  constMax :: nat

fun countShortcut :: "CountType \<Rightarrow> StatisticsCollector \<Rightarrow> StatisticsCollector" where
  "countShortcut shortestPath st = st\<lparr>shortCount := shortCount st + 1\<rparr>"
| "countShortcut repeatingConfig st = st\<lparr>sameCount := sameCount st + 1\<rparr>"
| "countShortcut unknownReason st = st\<lparr>unknown := unknown st + 1\<rparr>"

definition recordMaxValues :: "nat \<Rightarrow> nat \<Rightarrow> StatisticsCollector \<Rightarrow> StatisticsCollector" where
  "recordMaxValues lpCalls nconstraints st =
     st\<lparr>lpMax := max lpCalls (lpMax st), constMax := max nconstraints (constMax st)\<rparr>"

section \<open>The worker\<close>

text \<open>
  The collaborators of a \<^verbatim>\<open>ContractingThread\<close> that the source file only calls:
  \<^item> \<open>findBestRoute\<close>: \<^verbatim>\<open>NormalDijkstra::findBestRoute\<close>, a function of source,
    destination and configuration (its search state is working storage);
  \<^item> \<open>getEdge\<close>: the lookup \<^verbatim>\<open>Edge::getEdge\<close> in the edge registry;
  \<^item> \<open>Cost_equal\<close>: \<^verbatim>\<open>Cost::operator==\<close>;
  \<^item> \<open>lp_addConstraint\<close>, \<open>lp_solve\<close>, \<open>lp_variableValues\<close>: the methods of
    \<^verbatim>\<open>ContractionLp\<close>, acting on a solver state of type \<open>'lp\<close>;
  \<^item> the constants \<^verbatim>\<open>COST_ACCURACY\<close> and \<^verbatim>\<open>Cost::dim\<close>.
\<close>

record 'lp Externals =
  findBestRoute :: "NodePos \<Rightarrow> NodePos \<Rightarrow> Config \<Rightarrow> RouteWithCount option"
  getEdge :: "EdgeId \<Rightarrow> Edge"
  Cost_equal :: "Cost \<Rightarrow> Cost \<Rightarrow> bool"
  lp_addConstraint :: "real list \<Rightarrow> 'lp \<Rightarrow> 'lp"
  lp_solve :: "'lp \<Rightarrow> bool \<times> 'lp"
  lp_variableValues :: "'lp \<Rightarrow> real list"
  COST_ACCURACY :: real
  Cost_dim :: nat

text \<open>
  The members of \<^verbatim>\<open>ContractingThread\<close> (lines 102-117) that the witness search reads and
  writes. \<open>ct_in\<close>, \<open>ct_out\<close> and \<open>ct_set\<close> are the members \<^verbatim>\<open>in\<close>, \<^verbatim>\<open>out\<close> and \<^verbatim>\<open>set\<close>;
  \<open>lp\<close> is the state of the solver behind the pointer \<^verbatim>\<open>lp\<close>.
\<close>

record 'lp ContractingThread =
  stats :: StatisticsCollector
  config :: Config
  lp :: 'lp
  ct_in :: HalfEdge
  ct_out :: HalfEdge
  lpCount :: nat
  shortcuts :: "Edge list"
  shortcutCost :: Cost
  currentCost :: Cost
  constraints :: "Cost list"
  route :: RouteWithCount
  ct_set :: "NodePos set"

text \<open>
  Modelled from the spec: \<^verbatim>\<open>Config::operator==\<close> (declared in a header). Section 3 of the
  specification: two configurations are equal iff their components agree exactly.
\<close>

definition Config_eq :: "Config \<Rightarrow> Config \<Rightarrow> bool" where
  "Config_eq a b = (a = b)"

text \<open>\<^verbatim>\<open>addConstraint\<close> (lines 171-175).\<close>

definition addConstraint :: "'lp Externals \<Rightarrow> Cost \<Rightarrow> 'lp ContractingThread \<Rightarrow> 'lp ContractingThread" where
  "addConstraint X c s =
     (let newCost = Cost_sub c (shortcutCost s)
      in s\<lparr>lp := lp_addConstraint X newCost (lp s)\<rparr>)"

text \<open>
  \<^verbatim>\<open>storeShortcut\<close> (lines 189-194). The exception of \<open>createShortcut\<close> leaves the
  function after the counters were updated.
\<close>

definition storeShortcut ::
  "'lp Externals \<Rightarrow> CountType \<Rightarrow> 'lp ContractingThread \<Rightarrow> error + 'lp ContractingThread" where
  "storeShortcut X type s =
     (let s1 = s\<lparr>stats := countShortcut type (stats s)\<rparr>;
          s2 = s1\<lparr>stats := recordMaxValues (lpCount s1) (length (constraints s1)) (stats s1)\<rparr>
      in case createShortcut (getEdge X (he_id (ct_in s2))) (getEdge X (he_id (ct_out s2))) of
           Inl e \<Rightarrow> Inl e
         | Inr shortcut \<Rightarrow> Inr (s2\<lparr>shortcuts := shortcuts s2 @ [shortcut]\<rparr>))"

text \<open>
  \<^verbatim>\<open>testConfig\<close> (lines 196-225). The result is the exception, or the returned flag
  with the state of the thread after the call.
\<close>

definition testConfig ::
  "'lp Externals \<Rightarrow> Config \<Rightarrow> 'lp ContractingThread \<Rightarrow> error + (bool \<times> 'lp ContractingThread)" where
  "testConfig X c s =
     (case checkShortestPath (Cost_equal X) (findBestRoute X) (ct_in s) (ct_out s) c of
        (isShortest, foundRoute) \<Rightarrow>
          (if foundRoute = None \<or> edges (the foundRoute) = []
           then Inr (True, s\<lparr>stats := recordMaxValues (lpCount s) (length (constraints s)) (stats s)\<rparr>)
           else
             (let s1 = s\<lparr>currentCost := costs (the foundRoute)\<rparr>;
                  s2 = s1\<lparr>route := the foundRoute\<rparr>;
                  s3 = s2\<lparr>constraints := constraints s2 @ [currentCost s2]\<rparr>
              in if isShortest
                 then (if pathCount (route s3) = 1
                          \<or> list_ex (\<lambda>id. destPos (getEdge X id) \<in> ct_set s3) (edges (route s3))
                       then (case storeShortcut X shortestPath s3 of
                               Inl e \<Rightarrow> Inl e
                             | Inr s4 \<Rightarrow> Inr (True, s4))
                       else Inr (True, s3))
                 else if isDominated (Cost_dim X) (shortcutCost s3) (currentCost s3)
                      then Inr (True, s3)
                      else Inr (False, s3))))"

text \<open>
  \<^verbatim>\<open>std::unique\<close> with a binary predicate, as the standard libraries implement it: an
  element is dropped when the predicate holds between the last element kept and it.
\<close>

fun std_unique_from :: "('a \<Rightarrow> 'a \<Rightarrow> bool) \<Rightarrow> 'a \<Rightarrow> 'a list \<Rightarrow> 'a list" where
  "std_unique_from same kept [] = []"
| "std_unique_from same kept (x # xs) =
     (if same kept x then std_unique_from same kept xs else x # std_unique_from same x xs)"

fun std_unique :: "('a \<Rightarrow> 'a \<Rightarrow> bool) \<Rightarrow> 'a list \<Rightarrow> 'a list" where
  "std_unique same [] = []"
| "std_unique same (x # xs) = x # std_unique_from same x xs"

text \<open>
  \<^verbatim>\<open>dedupConstraints\<close> (lines 227-242). The sort compares the value arrays with \<^verbatim>\<open><\<close>,
  the lexicographic order; vectors that the comparison does not separate are equal, so
  the sorted sequence does not depend on the sorting algorithm.
\<close>

fun values_equal_loop :: "Cost \<Rightarrow> Cost \<Rightarrow> nat list \<Rightarrow> bool" where
  "values_equal_loop left right [] = True"
| "values_equal_loop left right (i # is) =
     (if left ! i \<noteq> right ! i then False else values_equal_loop left right is)"

definition dedupConstraints :: "'lp Externals \<Rightarrow> 'lp ContractingThread \<Rightarrow> 'lp ContractingThread" where
  "dedupConstraints X s =
     s\<lparr>constraints :=
         std_unique (\<lambda>left right. values_equal_loop left right [0..<Cost_dim X])
           (sort (constraints s))\<rparr>"

text \<open>
  Lines 304-310 of the main loop: the buffer is deduplicated, every constraint is pushed
  into the solver, and the solve is counted.
\<close>

definition lpPush :: "'lp Externals \<Rightarrow> 'lp ContractingThread \<Rightarrow> 'lp ContractingThread" where
  "lpPush X s1 =
     (let s2 = dedupConstraints X s1;
          s3 = fold (addConstraint X) (constraints s2) s2
      in s3\<lparr>lpCount := lpCount s3 + 1\<rparr>)"

text \<open>
  One round of the main loop of \<^verbatim>\<open>operator()\<close> (lines 299-328). The flag of the result
  says whether the loop is left (\<^verbatim>\<open>break\<close>).
\<close>

definition lpStep ::
  "'lp Externals \<Rightarrow> 'lp ContractingThread \<Rightarrow> error + (bool \<times> 'lp ContractingThread)" where
  "lpStep X s =
     (case testConfig X (config s) s of
        Inl e \<Rightarrow> Inl e
      | Inr (done, s1) \<Rightarrow>
          if done then Inr (True, s1)
          else
            (let s4 = lpPush X s1;
                 solved = lp_solve X (lp s4);
                 s5 = s4\<lparr>lp := snd solved\<rparr>
             in if \<not> fst solved
                then Inr (True, s5\<lparr>stats := recordMaxValues (lpCount s5) (length (constraints s5)) (stats s5)\<rparr>)
                else
                  (let newConfig = lp_variableValues X (lp s5)
                   in if Config_eq newConfig (config s5)
                      then (case storeShortcut X
                                   (if Cost_dot (currentCost s5) (config s5)
                                       \<ge> Cost_dot (shortcutCost s5) (config s5) - COST_ACCURACY X
                                    then repeatingConfig else unknownReason) s5 of
                              Inl e \<Rightarrow> Inl e
                            | Inr s6 \<Rightarrow> Inr (True, s6))
                      else Inr (False, s5\<lparr>config := newConfig\<rparr>))))"

text \<open>
  The main loop \<^verbatim>\<open>while (true)\<close>. Nothing in the source bounds the number of rounds, so
  the loop is a partial function: \<open>None\<close> is a loop that never leaves.
\<close>

partial_function (option) lpLoop ::
  "'lp Externals \<Rightarrow> 'lp ContractingThread \<Rightarrow> (error + 'lp ContractingThread) option" where
  "lpLoop X s =
     (case lpStep X s of
        Inl e \<Rightarrow> Some (Inl e)
      | Inr (done, s') \<Rightarrow> if done then Some (Inr s') else lpLoop X s')"

declare lpLoop.simps [code]

text \<open>The axis probes of a cold start (lines 277-291): \<open>testConfig\<close> on each unit vector.\<close>

definition unitConfig :: "nat \<Rightarrow> nat \<Rightarrow> Config" where
  "unitConfig cdim i = (replicate cdim 0)[i := 1]"

fun axisProbes ::
  "'lp Externals \<Rightarrow> nat list \<Rightarrow> 'lp ContractingThread \<Rightarrow> error + (bool \<times> 'lp ContractingThread)" where
  "axisProbes X [] s = Inr (False, s)"
| "axisProbes X (i # is) s =
     (case testConfig X (unitConfig (Cost_dim X) i) s of
        Inl e \<Rightarrow> Inl e
      | Inr (done, s') \<Rightarrow> if done then Inr (True, s') else axisProbes X is s')"

text \<open>
  The body of the loop over the received pairs in \<^verbatim>\<open>operator()\<close> (lines 252-329): the
  witness search for one pair, from the state the previous pair left. The loop over the
  constraints at lines 293-296 has no effect and is left out.
\<close>

definition isWarm :: "EdgePair \<Rightarrow> 'lp ContractingThread \<Rightarrow> bool" where
  "isWarm pair s \<longleftrightarrow>
     he_end (pair_in pair) = he_end (ct_in s) \<and> he_end (pair_out pair) = he_end (ct_out s)"

text \<open>
  The assignments of lines 260-261 and 273-275: the pair becomes the pair of the thread,
  the configuration is the uniform one, and the shortcut cost is the sum of the costs of
  the two half edges.
\<close>

definition startPair ::
  "'lp Externals \<Rightarrow> EdgePair \<Rightarrow> 'lp ContractingThread \<Rightarrow> 'lp ContractingThread" where
  "startPair X pair s1 =
     (let s2 = s1\<lparr>ct_in := pair_in pair, ct_out := pair_out pair\<rparr>;
          s3 = s2\<lparr>config := replicate (Cost_dim X) (1 / real (Cost_dim X))\<rparr>
      in s3\<lparr>shortcutCost := Cost_add (he_cost (ct_in s3)) (he_cost (ct_out s3))\<rparr>)"

definition processPair ::
  "'lp Externals \<Rightarrow> EdgePair \<Rightarrow> 'lp ContractingThread \<Rightarrow> (error + 'lp ContractingThread) option" where
  "processPair X pair s =
     (let warm = isWarm pair s;
          s1 = (if warm then s else s\<lparr>constraints := []\<rparr>)
      in if he_begin (pair_in pair) \<noteq> he_begin (pair_out pair)
         then Some (Inl (invalid_argument ''In out pair does not belong together''))
         else if getDestId (getEdge X (he_id (pair_in pair)))
                   \<noteq> getSourceId (getEdge X (he_id (pair_out pair)))
         then Some (Inl (invalid_argument ''In out edges do not belong together''))
         else
           (let s4 = startPair X pair s1
            in if \<not> warm
               then (case axisProbes X [0..<Cost_dim X] s4 of
                       Inl e \<Rightarrow> Some (Inl e)
                     | Inr (finished, s5) \<Rightarrow>
                         if finished then Some (Inr s5) else lpLoop X (s5\<lparr>lpCount := 0\<rparr>))
               else lpLoop X (s4\<lparr>lpCount := 0\<rparr>)))"




section \<open>The graph of a level\<close>

text \<open>
  Modelled from the spec: the \<^verbatim>\<open>Graph\<close> container and \<^verbatim>\<open>Node\<close> (declared in \<^verbatim>\<open>graph.hpp\<close>, not
  part of the source file). Sections 3 and 6 of the specification: a graph gives random
  access to its nodes by position, \<^verbatim>\<open>getNodeCount\<close>, and for every position the ranges of
  ingoing and outgoing half edges; a half edge pairs the adjacent node \<^verbatim>\<open>end\<close>, the
  originating node \<^verbatim>\<open>begin\<close>, the edge id and the cost. A graph is its node array and its
  edges between positions; an edge from \<open>u\<close> to \<open>v\<close> is an outgoing half edge of \<open>u\<close> with
  end \<open>v\<close> and an ingoing half edge of \<open>v\<close> with end \<open>u\<close>. The coordinates of a node are
  opaque and left out.
\<close>

record Node =
  node_id :: NodeId
  node_level :: nat

record GraphEdge =
  ge_id :: EdgeId
  ge_source :: NodePos
  ge_dest :: NodePos
  ge_cost :: Cost

record Graph =
  g_nodes :: "Node list"
  g_edges :: "GraphEdge list"

definition getNodeCount :: "Graph \<Rightarrow> nat" where
  "getNodeCount g = length (g_nodes g)"


definition getOutgoingEdgesOf :: "Graph \<Rightarrow> NodePos \<Rightarrow> HalfEdge list" where
  "getOutgoingEdgesOf g p =
     map (\<lambda>e. \<lparr> he_id = ge_id e, he_begin = p, he_end = ge_dest e, he_cost = ge_cost e \<rparr>)
       (filter (\<lambda>e. ge_source e = p) (g_edges g))"

definition getIngoingEdgesOf :: "Graph \<Rightarrow> NodePos \<Rightarrow> HalfEdge list" where
  "getIngoingEdgesOf g p =
     map (\<lambda>e. \<lparr> he_id = ge_id e, he_begin = p, he_end = ge_source e, he_cost = ge_cost e \<rparr>)
       (filter (\<lambda>e. ge_dest e = p) (g_edges g))"

section \<open>The independent set\<close>

text \<open>
  The score of lines 382-385 and 415-418: the number of ingoing half edges times the
  number of outgoing half edges.
\<close>

definition degreeProduct :: "Graph \<Rightarrow> NodePos \<Rightarrow> nat" where
  "degreeProduct g p = length (getIngoingEdgesOf g p) * length (getOutgoingEdgesOf g p)"

text \<open>
  \<^verbatim>\<open>Contractor::independentSet\<close> (lines 373-407). The pairs of score and position are
  pairwise different, so \<^verbatim>\<open>std::sort\<close> on them has one result, the ascending sequence.
  \<open>unselect\<close> is one of the two loops of lines 395-400; a position outside the vector is
  not written (the positions of a graph are below its node count). The
  \<^verbatim>\<open>std::set<NodePos>\<close> is a set of positions.
\<close>

definition unselect :: "HalfEdge list \<Rightarrow> bool list \<Rightarrow> bool list" where
  "unselect hs selected = fold (\<lambda>h sel. sel[he_end h := False]) hs selected"

fun sweep :: "Graph \<Rightarrow> (nat \<times> NodePos) list \<Rightarrow> bool list \<Rightarrow> NodePos set \<Rightarrow> NodePos set" where
  "sweep g [] selected S = S"
| "sweep g (n # ns) selected S =
     (let pos = snd n in
      if selected ! pos
      then sweep g ns
             (unselect (getOutgoingEdgesOf g pos) (unselect (getIngoingEdgesOf g pos) selected))
             (insert pos S)
      else sweep g ns selected S)"

definition independentSet :: "Graph \<Rightarrow> NodePos set" where
  "independentSet g =
     (let nodeCount = getNodeCount g;
          nodes = sort (map (\<lambda>i. (degreeProduct g i, i)) [0..<nodeCount])
      in sweep g nodes (replicate nodeCount True) {})"

text \<open>
  \<^verbatim>\<open>Contractor::reduce\<close> (lines 409-433). The metric is built in the order of the set,
  ascending. \<^verbatim>\<open>std::nth_element\<close> leaves before \<^verbatim>\<open>median\<close> the elements that come before
  it in the sorted order; the pairs are pairwise different, so these are the first
  elements of the sorted sequence, in some order, and the result, a set, does not depend
  on that order. With \<^verbatim>\<open>median\<close> at the end nothing is moved.
\<close>

definition reduce :: "NodePos set \<Rightarrow> Graph \<Rightarrow> NodePos set" where
  "reduce S g =
     (let metric = map (\<lambda>p. (degreeProduct g p, p)) (sorted_list_of_set S);
          divider = 4;
          median = (if length metric < divider then length metric else length metric div divider)
      in set (map snd (take median (sort metric))))"

section \<open>The level\<close>

text \<open>
  The comparison of the sort at lines 519-537 and the predicate of the \<^verbatim>\<open>std::unique\<close> at
  lines 538-551, with their loops over the cost dimensions.
\<close>

fun cost_less_loop :: "Cost \<Rightarrow> Cost \<Rightarrow> nat list \<Rightarrow> bool" where
  "cost_less_loop l r [] = False"
| "cost_less_loop l r (i # is) =
     (if l ! i < r ! i then True
      else if l ! i > r ! i then False
      else cost_less_loop l r is)"

definition shortcut_less :: "nat \<Rightarrow> Edge \<Rightarrow> Edge \<Rightarrow> bool" where
  "shortcut_less cdim left right =
     (if getSourceId left < getSourceId right then True
      else if getSourceId left > getSourceId right then False
      else if getDestId left < getDestId right then True
      else if getDestId left > getDestId right then False
      else cost_less_loop (getCost left) (getCost right) [0..<cdim])"

fun cost_close_loop :: "real \<Rightarrow> Cost \<Rightarrow> Cost \<Rightarrow> nat list \<Rightarrow> bool" where
  "cost_close_loop acc l r [] = True"
| "cost_close_loop acc l r (i # is) =
     (if \<bar>l ! i - r ! i\<bar> > acc then False else cost_close_loop acc l r is)"

definition shortcut_same :: "real \<Rightarrow> nat \<Rightarrow> Edge \<Rightarrow> Edge \<Rightarrow> bool" where
  "shortcut_same acc cdim left right =
     (let sameNodes = (getSourceId left = getSourceId right \<and> getDestId left = getDestId right)
      in if \<not> sameNodes then False
         else cost_close_loop acc (getCost left) (getCost right) [0..<cdim])"

text \<open>
  \<^verbatim>\<open>std::sort\<close> with a comparison. The order of elements that the comparison does not
  separate is not specified by the library; the model inserts one element after the
  other, and the statements about the sorted sequence hold for every sorted arrangement.
\<close>

fun insort_by :: "('a \<Rightarrow> 'a \<Rightarrow> bool) \<Rightarrow> 'a \<Rightarrow> 'a list \<Rightarrow> 'a list" where
  "insort_by lt x [] = [x]"
| "insort_by lt x (y # ys) = (if lt y x then y # insort_by lt x ys else x # y # ys)"

definition std_sort :: "('a \<Rightarrow> 'a \<Rightarrow> bool) \<Rightarrow> 'a list \<Rightarrow> 'a list" where
  "std_sort lt xs = foldr (insort_by lt) xs []"

text \<open>Lines 519-555 of \<^verbatim>\<open>contract\<close>: the shortcuts of the level, sorted and made unique.\<close>

definition publishShortcuts :: "real \<Rightarrow> nat \<Rightarrow> Edge list \<Rightarrow> Edge list" where
  "publishShortcuts acc cdim cuts =
     std_unique (shortcut_same acc cdim) (std_sort (shortcut_less cdim) cuts)"





















section \<open>Vocabulary of the statements\<close>

text \<open>
  The conditions that the source tests, named for the statements below:
  \<^item> \<open>edgesConnected\<close>: the registry edges of \<^verbatim>\<open>in\<close> and \<^verbatim>\<open>out\<close> meet, the condition
    under which \<open>createShortcut\<close> returns (line 358, checked at line 269);
  \<^item> \<open>shortcutOf\<close>: the edge \<open>createShortcut\<close> then returns for the pair of the thread;
  \<^item> \<open>probe_isShortest\<close>: the flag \<^verbatim>\<open>isShortest\<close> of line 98 for a found route;
  \<^item> \<open>necessaryByShortest\<close>: the condition of lines 209-214 under which \<open>testConfig\<close>
    stores a shortcut.
\<close>

definition edgesConnected :: "'lp Externals \<Rightarrow> 'lp ContractingThread \<Rightarrow> bool" where
  "edgesConnected X s \<longleftrightarrow>
     getDestId (getEdge X (he_id (ct_in s))) = getSourceId (getEdge X (he_id (ct_out s)))"

definition shortcutOf :: "'lp Externals \<Rightarrow> 'lp ContractingThread \<Rightarrow> Edge" where
  "shortcutOf X s =
     \<lparr> getId = 0, getSourceId = getSourceId (getEdge X (he_id (ct_in s))),
       getDestId = getDestId (getEdge X (he_id (ct_out s))),
       getCost = Cost_add (getCost (getEdge X (he_id (ct_in s)))) (getCost (getEdge X (he_id (ct_out s)))),
       children = Some (getId (getEdge X (he_id (ct_in s))), getId (getEdge X (he_id (ct_out s)))),
       destPos = 0 \<rparr>"

definition probe_isShortest :: "'lp Externals \<Rightarrow> 'lp ContractingThread \<Rightarrow> RouteWithCount \<Rightarrow> bool" where
  "probe_isShortest X s r \<longleftrightarrow>
     Cost_equal X (costs r) (Cost_add (he_cost (ct_in s)) (he_cost (ct_out s)))"

definition necessaryByShortest :: "'lp Externals \<Rightarrow> 'lp ContractingThread \<Rightarrow> RouteWithCount \<Rightarrow> bool" where
  "necessaryByShortest X s r \<longleftrightarrow>
     probe_isShortest X s r
     \<and> (pathCount r = 1 \<or> list_ex (\<lambda>id. destPos (getEdge X id) \<in> ct_set s) (edges r))"

text \<open>
  For the graph of a level: \<open>neighbours g u\<close> are the ends of the half edges of \<open>u\<close>,
  the positions that the sweep of \<open>independentSet\<close> marks when it selects \<open>u\<close>.
\<close>

definition neighbours :: "Graph \<Rightarrow> NodePos \<Rightarrow> NodePos set" where
  "neighbours g u = he_end ` (set (getIngoingEdgesOf g u) \<union> set (getOutgoingEdgesOf g u))"

text \<open>
  The key by which the comparison of lines 519-537 orders the shortcuts: source,
  destination, and the first \<open>cdim\<close> cost components, compared lexicographically.
\<close>

definition shortcut_key :: "nat \<Rightarrow> Edge \<Rightarrow> nat \<times> nat \<times> real list" where
  "shortcut_key cdim e = (getSourceId e, getDestId e, map (\<lambda>i. getCost e ! i) [0..<cdim])"

text \<open>
  For the comparison of two runs of the witness search: \<open>sameVerdict\<close> says that two
  states of a thread hold the same shortcuts and the same three shortcut counters, and
  \<open>sameSearch\<close> that two states at the head of the main loop differ at most in the order
  and the multiplicity of the constraints of the buffer, in the cost and the route of the
  last probe, and in the two maxima of the statistics.
\<close>

definition sameVerdict :: "'lp ContractingThread \<Rightarrow> 'lp ContractingThread \<Rightarrow> bool" where
  "sameVerdict a b \<longleftrightarrow>
     shortcuts a = shortcuts b \<and> shortCount (stats a) = shortCount (stats b)
     \<and> sameCount (stats a) = sameCount (stats b) \<and> unknown (stats a) = unknown (stats b)"

definition sameSearch :: "'lp ContractingThread \<Rightarrow> 'lp ContractingThread \<Rightarrow> bool" where
  "sameSearch a b \<longleftrightarrow>
     sameVerdict a b \<and> config a = config b \<and> lp a = lp b \<and> ct_in a = ct_in b
     \<and> ct_out a = ct_out b \<and> lpCount a = lpCount b \<and> shortcutCost a = shortcutCost b
     \<and> ct_set a = ct_set b \<and> set (constraints a) = set (constraints b)"

section \<open>A small level, for the concrete instances\<close>

text \<open>
  Two cost dimensions. Node 1 is a node being contracted, between node 0 and node 2;
  edges 0 and 4 run from 0 to 1, edge 1 from 1 to 2, all with cost \<open>(1, 1)\<close>. Edges 2 and 3
  pass through node 3 and edges 5 and 6 through node 4, both from 0 to 2. Node 5 is
  contracted in the same level, between node 0 (edge 7, cost \<open>(1, 2)\<close>) and node 2 (edge 8,
  cost \<open>(2, 1)\<close>). The probe
  \<open>ex_dijkstra r0 r1\<close> answers \<open>r0\<close> under the first unit vector and \<open>r1\<close> under every
  other configuration, for the pair of endpoints 0 and 2, and finds no route elsewhere.
  The solver stub records the constraints, reports \<open>feasible\<close> and proposes the uniform
  configuration.
\<close>

definition ex_edge :: "EdgeId \<Rightarrow> NodeId \<Rightarrow> NodeId \<Rightarrow> Cost \<Rightarrow> Edge" where
  "ex_edge i a b c =
     \<lparr> getId = i, getSourceId = a, getDestId = b, getCost = c, children = None, destPos = b \<rparr>"

definition ex_getEdge :: "EdgeId \<Rightarrow> Edge" where
  "ex_getEdge i =
     (if i = 0 then ex_edge 0 0 1 [1, 1]
      else if i = 1 then ex_edge 1 1 2 [1, 1]
      else if i = 2 then ex_edge 2 0 3 [1, 1 / 2]
      else if i = 3 then ex_edge 3 3 2 [1, 1 / 2]
      else if i = 4 then ex_edge 4 0 1 [1, 1]
      else if i = 5 then ex_edge 5 0 4 [1, 1]
      else if i = 6 then ex_edge 6 4 2 [1, 1]
      else if i = 7 then ex_edge 7 0 5 [1, 2]
      else ex_edge i 5 2 [2, 1])"

definition ex_dijkstra ::
  "RouteWithCount \<Rightarrow> RouteWithCount \<Rightarrow> NodePos \<Rightarrow> NodePos \<Rightarrow> Config \<Rightarrow> RouteWithCount option" where
  "ex_dijkstra r0 r1 src dst conf =
     (if src = 0 \<and> dst = 2 then Some (if conf = [1, 0] then r0 else r1) else None)"

definition ex_X :: "RouteWithCount \<Rightarrow> RouteWithCount \<Rightarrow> bool \<Rightarrow> (real list list) Externals" where
  "ex_X r0 r1 feasible =
     \<lparr> findBestRoute = ex_dijkstra r0 r1, getEdge = ex_getEdge,
       Cost_equal = Cost_eq (1 / 1000000) 2,
       lp_addConstraint = (\<lambda>c l. l @ [c]), lp_solve = (\<lambda>l. (feasible, l)),
       lp_variableValues = (\<lambda>l. [1 / 2, 1 / 2]),
       COST_ACCURACY = 1 / 1000000, Cost_dim = 2 \<rparr>"

definition ex_route :: "Cost \<Rightarrow> EdgeId list \<Rightarrow> nat \<Rightarrow> RouteWithCount" where
  "ex_route c es n = \<lparr> costs = c, edges = es, pathCount = n \<rparr>"

text \<open>
  A thread whose previous pair went from a node \<open>prevEnd\<close> through edge 0 and edge 1, with
  the constraints \<open>cs\<close> in its buffer and the nodes 1 and 5 selected.
\<close>

definition ex_thread :: "NodePos \<Rightarrow> Cost list \<Rightarrow> (real list list) ContractingThread" where
  "ex_thread prevEnd cs =
     \<lparr> stats = \<lparr> active = False, shortCount = 0, sameCount = 0, unknown = 0, lpMax = 0, constMax = 0 \<rparr>,
       config = [1 / 2, 1 / 2], lp = [],
       ct_in = \<lparr> he_id = 0, he_begin = 1, he_end = prevEnd, he_cost = [1, 1] \<rparr>,
       ct_out = \<lparr> he_id = 1, he_begin = 1, he_end = 2, he_cost = [1, 1] \<rparr>,
       lpCount = 0, shortcuts = [], shortcutCost = [2, 2], currentCost = [0, 0],
       constraints = cs, route = ex_route [0, 0] [] 0, ct_set = {1, 5} \<rparr>"

text \<open>
  The pair through node 5 (edges 7 and 8) and the pair through node 1 (edges 0 and 1):
  two pairs with the same endpoints 0 and 2. \<open>ex_emitted\<close> reads the children of the
  shortcuts off the result of a witness search, and \<open>ex_after\<close> the state it leaves.
\<close>

definition ex_pairA :: EdgePair where
  "ex_pairA =
     \<lparr> pair_in = \<lparr> he_id = 7, he_begin = 5, he_end = 0, he_cost = [1, 2] \<rparr>,
       pair_out = \<lparr> he_id = 8, he_begin = 5, he_end = 2, he_cost = [2, 1] \<rparr> \<rparr>"

definition ex_pairB :: EdgePair where
  "ex_pairB =
     \<lparr> pair_in = \<lparr> he_id = 0, he_begin = 1, he_end = 0, he_cost = [1, 1] \<rparr>,
       pair_out = \<lparr> he_id = 1, he_begin = 1, he_end = 2, he_cost = [1, 1] \<rparr> \<rparr>"

definition ex_emitted ::
  "(error + (real list list) ContractingThread) option \<Rightarrow> (error + (EdgeId \<times> EdgeId) option list) option" where
  "ex_emitted r = map_option (map_sum id (\<lambda>s. map children (shortcuts s))) r"

definition ex_after ::
  "(error + (real list list) ContractingThread) option \<Rightarrow> (real list list) ContractingThread" where
  "ex_after r = projr (the r)"

text \<open>
  The graph of the small level, its positions equal to its node ids, and a graph of one
  node with an edge from the node to itself.
\<close>

definition ex_node :: "NodeId \<Rightarrow> Node" where
  "ex_node i = \<lparr> node_id = i, node_level = 0 \<rparr>"

definition ex_gedge :: "EdgeId \<Rightarrow> NodePos \<Rightarrow> NodePos \<Rightarrow> GraphEdge" where
  "ex_gedge i a b = \<lparr> ge_id = i, ge_source = a, ge_dest = b, ge_cost = [1, 1] \<rparr>"

definition ex_graph :: Graph where
  "ex_graph =
     \<lparr> g_nodes = [ex_node 0, ex_node 1, ex_node 2, ex_node 3, ex_node 4],
       g_edges = [ex_gedge 0 0 1, ex_gedge 1 1 2, ex_gedge 2 0 3, ex_gedge 3 3 2,
                  ex_gedge 4 0 1, ex_gedge 5 0 4, ex_gedge 6 4 2] \<rparr>"

definition ex_loop_graph :: Graph where
  "ex_loop_graph = \<lparr> g_nodes = [ex_node 0], g_edges = [ex_gedge 0 0 0] \<rparr>"













text \<open>A shortcut from node 0 to node 2 over the edges 0 and 1, with a given cost.\<close>

definition ex_shortcut :: "Cost \<Rightarrow> Edge" where
  "ex_shortcut c =
     \<lparr> getId = 0, getSourceId = 0, getDestId = 2, getCost = c, children = Some (0, 1),
       destPos = 0 \<rparr>"

text \<open>A probe for the claim about \<open>checkShortestPath\<close>: one route of cost \<open>(1, 3)\<close>.\<close>

definition ex_in :: HalfEdge where
  "ex_in = \<lparr>he_id = 0, he_begin = 1, he_end = 0, he_cost = [2, 0]\<rparr>"

definition ex_out :: HalfEdge where
  "ex_out = \<lparr>he_id = 1, he_begin = 1, he_end = 2, he_cost = [1, 1]\<rparr>"

definition ex_findRoute13 :: "NodePos \<Rightarrow> NodePos \<Rightarrow> Config \<Rightarrow> RouteWithCount option" where
  "ex_findRoute13 a b c = Some (ex_route [1, 3] [7] 1)"

section \<open>Properties of the probe, dominance and shortcut creation\<close>

lemma isDominated_loop_char:
  "isDominated_loop sc c is d sd =
     (if \<exists>i \<in> set is. c ! i > sc ! i then (False, True)
      else (d, sd \<or> (\<exists>i \<in> set is. c ! i \<noteq> sc ! i)))"
  by (induction "is" arbitrary: sd) auto

lemma isDominated_components:
  "isDominated cdim sc c \<longleftrightarrow> (\<forall>i<cdim. c ! i \<le> sc ! i) \<and> (\<exists>i<cdim. c ! i \<noteq> sc ! i)"
  by (auto simp: isDominated_def isDominated_loop_char not_less)

text \<open>
  Claim C2. For cost vectors of \<open>cdim\<close> components, \<open>isDominated\<close> holds exactly when the
  cost is component-wise at most the shortcut cost and differs from it (in at least one
  component); the shortcut cost itself is not dominated.
\<close>

theorem isDominated_iff:
  assumes "length c = cdim" and "length sc = cdim"
  shows "(isDominated cdim sc c \<longleftrightarrow> (\<forall>i<cdim. c ! i \<le> sc ! i) \<and> c \<noteq> sc)
         \<and> (c \<noteq> sc \<longleftrightarrow> (\<exists>i<cdim. c ! i \<noteq> sc ! i))
         \<and> \<not> isDominated cdim sc sc"
proof -
  have ne: "c \<noteq> sc \<longleftrightarrow> (\<exists>i<cdim. c ! i \<noteq> sc ! i)"
    using assms by (auto simp: list_eq_iff_nth_eq)
  show ?thesis
    unfolding isDominated_components ne by simp
qed

theorem isDominated_iff_witness:
  "isDominated 2 [2, 2] [2, 1] \<and> \<not> isDominated 2 [2, 2] [3, 0] \<and> \<not> isDominated 2 [2, 2] [2, 2]"
proof -
  have a: "isDominated 2 [2, 2] [2, 1] \<longleftrightarrow> (\<forall>i<2. [2, 1::real] ! i \<le> [2, 2] ! i) \<and> [2, 1::real] \<noteq> [2, 2]"
    using isDominated_iff [of "[2, 1]" 2 "[2, 2]"] by simp
  have b: "isDominated 2 [2, 2] [3, 0] \<longleftrightarrow> (\<forall>i<2. [3, 0::real] ! i \<le> [2, 2] ! i) \<and> [3, 0::real] \<noteq> [2, 2]"
    using isDominated_iff [of "[3, 0]" 2 "[2, 2]"] by simp
  have c: "\<not> isDominated 2 [2, 2] [2, 2]"
    using isDominated_iff [of "[2, 2]" 2 "[2, 2]"] by simp
  have all2: "\<And>P. (\<forall>i<2::nat. P i) \<longleftrightarrow> P 0 \<and> P 1"
    by (auto simp: less_2_cases_iff)
  show ?thesis
    using a b c by (simp add: all2)
qed

text \<open>
  Claim C5. \<open>createShortcut\<close> raises \<open>invalid_argument\<close> exactly when the destination of
  the first edge differs from the source of the second; otherwise it returns the edge
  from the first edge's source to the second edge's destination, with the two edge ids
  as children and the sum of the two costs.
\<close>

theorem createShortcut_spec:
  "((\<exists>m. createShortcut e1 e2 = Inl (invalid_argument m)) \<longleftrightarrow> getDestId e1 \<noteq> getSourceId e2)
   \<and> (\<forall>s. createShortcut e1 e2 = Inr s \<longrightarrow>
         getSourceId s = getSourceId e1 \<and> getDestId s = getDestId e2
         \<and> children s = Some (getId e1, getId e2)
         \<and> getCost s = Cost_add (getCost e1) (getCost e2))
   \<and> (getDestId e1 = getSourceId e2 \<longrightarrow> (\<exists>s. createShortcut e1 e2 = Inr s))"
  by (auto simp: createShortcut_def)

lemmas ex_defs = ex_X_def ex_thread_def ex_dijkstra_def ex_route_def ex_getEdge_def ex_edge_def

lemma all2: "(\<forall>i<2::nat. P i) \<longleftrightarrow> P 0 \<and> P 1"
  by (auto simp: less_2_cases_iff)

lemma ex2: "(\<exists>i<2::nat. P i) \<longleftrightarrow> P 0 \<or> P 1"
  by (auto simp: less_2_cases_iff)

lemma upt2: "[0..<2] = [0, 1]"
  by (simp add: upt_rec)

theorem createShortcut_spec_witness:
  "createShortcut (ex_getEdge 0) (ex_getEdge 1)
     = Inr \<lparr> getId = 0, getSourceId = 0, getDestId = 2, getCost = [2, 2],
             children = Some (0, 1), destPos = 0 \<rparr>
   \<and> (\<exists>m. createShortcut (ex_getEdge 1) (ex_getEdge 0) = Inl (invalid_argument m))"
proof -
  have a: "\<exists>m. createShortcut (ex_getEdge 1) (ex_getEdge 0) = Inl (invalid_argument m)"
    using createShortcut_spec [of "ex_getEdge 1" "ex_getEdge 0"]
    by (simp add: ex_getEdge_def ex_edge_def)
  obtain s where s: "createShortcut (ex_getEdge 0) (ex_getEdge 1) = Inr s"
    using createShortcut_spec [of "ex_getEdge 0" "ex_getEdge 1"]
    by (auto simp: ex_getEdge_def ex_edge_def)
  then have "getSourceId s = 0 \<and> getDestId s = 2 \<and> children s = Some (0, 1) \<and> getCost s = [2, 2]"
    using createShortcut_spec [of "ex_getEdge 0" "ex_getEdge 1"]
    by (simp add: ex_getEdge_def ex_edge_def Cost_add_def)
  moreover have "getId s = 0 \<and> destPos s = 0"
    using s by (auto simp: createShortcut_def split: if_splits)
  ultimately have "s = \<lparr> getId = 0, getSourceId = 0, getDestId = 2, getCost = [2, 2],
             children = Some (0, 1), destPos = 0 \<rparr>"
    by (cases s) simp
  with s a show ?thesis by simp
qed

section \<open>The probe\<close>

text \<open>
  Claim C7, as the code has it. Without a route the probe returns \<open>(False, None)\<close>. With a
  route it returns the route, and the flag \<^verbatim>\<open>isShortest\<close> is the comparison \<^verbatim>\<open>==\<close> of the two
  cost vectors, the route's and the sum of the two half-edge costs; the configuration
  is used for the search only, and no scalarized value is compared.
\<close>

theorem checkShortestPath_spec:
  "(fbr (he_end i) (he_end out) conf = None \<longrightarrow>
      checkShortestPath ceq fbr i out conf = (False, None))
   \<and> (\<forall>r. fbr (he_end i) (he_end out) conf = Some r \<longrightarrow>
      checkShortestPath ceq fbr i out conf
        = (ceq (costs r) (Cost_add (he_cost i) (he_cost out)), Some r))"
  by (simp add: checkShortestPath_def)

theorem checkShortestPath_spec_witness:
  "checkShortestPath (=) (ex_dijkstra (ex_route [3, 1] [0, 1] 1) (ex_route [1, 3] [7] 1)) ex_in ex_out [1, 0]
     = (True, Some (ex_route [3, 1] [0, 1] 1))
   \<and> checkShortestPath (=) (ex_dijkstra (ex_route [3, 1] [0, 1] 1) (ex_route [1, 3] [7] 1)) ex_in ex_out [0, 1]
     = (False, Some (ex_route [1, 3] [7] 1))
   \<and> checkShortestPath (=) (ex_dijkstra (ex_route [3, 1] [0, 1] 1) (ex_route [1, 3] [7] 1)) ex_out ex_in [0, 1]
     = (False, None)"
proof -
  let ?d = "ex_dijkstra (ex_route [3, 1] [0, 1] 1) (ex_route [1, 3] [7] 1)"
  have a: "checkShortestPath (=) ?d ex_in ex_out [1, 0] = (True, Some (ex_route [3, 1] [0, 1] 1))"
    using checkShortestPath_spec [of ?d ex_in ex_out "[1, 0]" "(=)"]
    by (simp add: ex_dijkstra_def ex_in_def ex_out_def ex_route_def Cost_add_def)
  have b: "checkShortestPath (=) ?d ex_in ex_out [0, 1] = (False, Some (ex_route [1, 3] [7] 1))"
    using checkShortestPath_spec [of ?d ex_in ex_out "[0, 1]" "(=)"]
    by (simp add: ex_dijkstra_def ex_in_def ex_out_def ex_route_def Cost_add_def)
  have c: "checkShortestPath (=) ?d ex_out ex_in [0, 1] = (False, None)"
    using checkShortestPath_spec [of ?d ex_out ex_in "[0, 1]" "(=)"]
    by (simp add: ex_dijkstra_def ex_in_def ex_out_def)
  from a b c show ?thesis by simp
qed

text \<open>
  Claim C7 as stated fails: under the uniform configuration the route of cost \<open>(1, 3)\<close>
  and the pair of cost \<open>(2, 0) + (1, 1)\<close> have the same scalarized value 2, and the flag
  is false, for the exact comparison of the vectors and for the comparison within the
  tolerance.
\<close>

theorem checkShortestPath_counterexample:
  "Cost_dot (costs (ex_route [1, 3] [7] 1)) [1 / 2, 1 / 2]
     = Cost_dot (Cost_add (he_cost ex_in) (he_cost ex_out)) [1 / 2, 1 / 2]
   \<and> checkShortestPath (=) ex_findRoute13 ex_in ex_out [1 / 2, 1 / 2]
       = (False, Some (ex_route [1, 3] [7] 1))
   \<and> checkShortestPath (Cost_eq (1 / 1000000) 2) ex_findRoute13 ex_in ex_out [1 / 2, 1 / 2]
       = (False, Some (ex_route [1, 3] [7] 1))"
  by (simp add: checkShortestPath_def ex_findRoute13_def ex_in_def ex_out_def ex_route_def
      Cost_add_def Cost_dot_def Cost_eq_def upt2)

section \<open>The test of one configuration\<close>

lemma storeShortcut_connected:
  "edgesConnected X s \<Longrightarrow>
   storeShortcut X t s =
     Inr (s\<lparr>stats := recordMaxValues (lpCount s) (length (constraints s)) (countShortcut t (stats s)),
            shortcuts := shortcuts s @ [shortcutOf X s]\<rparr>)"
  by (simp add: storeShortcut_def edgesConnected_def createShortcut_def shortcutOf_def Let_def)

lemma storeShortcut_disconnected:
  "\<not> edgesConnected X s \<Longrightarrow>
   storeShortcut X t s = Inl (invalid_argument ''Edges are not connected'')"
  by (simp add: storeShortcut_def edgesConnected_def createShortcut_def Let_def)

lemma testConfig_noRoute:
  assumes "findBestRoute X (he_end (ct_in s)) (he_end (ct_out s)) c = None"
  shows "testConfig X c s =
           Inr (True, s\<lparr>stats := recordMaxValues (lpCount s) (length (constraints s)) (stats s)\<rparr>)"
  using assms by (simp add: testConfig_def checkShortestPath_def)

lemma testConfig_emptyRoute:
  assumes "findBestRoute X (he_end (ct_in s)) (he_end (ct_out s)) c = Some r" "edges r = []"
  shows "testConfig X c s =
           Inr (True, s\<lparr>stats := recordMaxValues (lpCount s) (length (constraints s)) (stats s)\<rparr>)"
  using assms by (simp add: testConfig_def checkShortestPath_def)

lemma testConfig_route:
  assumes "findBestRoute X (he_end (ct_in s)) (he_end (ct_out s)) c = Some r" "edges r \<noteq> []"
  shows "testConfig X c s =
     (if probe_isShortest X s r
      then (if necessaryByShortest X s r
            then (case storeShortcut X shortestPath
                         (s\<lparr>currentCost := costs r, route := r, constraints := constraints s @ [costs r]\<rparr>) of
                    Inl e \<Rightarrow> Inl e | Inr s4 \<Rightarrow> Inr (True, s4))
            else Inr (True, s\<lparr>currentCost := costs r, route := r, constraints := constraints s @ [costs r]\<rparr>))
      else if isDominated (Cost_dim X) (shortcutCost s) (costs r)
      then Inr (True, s\<lparr>currentCost := costs r, route := r, constraints := constraints s @ [costs r]\<rparr>)
      else Inr (False, s\<lparr>currentCost := costs r, route := r, constraints := constraints s @ [costs r]\<rparr>))"
  using assms
  by (simp add: testConfig_def checkShortestPath_def Let_def probe_isShortest_def necessaryByShortest_def)

lemma edgesConnected_cong:
  "ct_in s' = ct_in s \<Longrightarrow> ct_out s' = ct_out s \<Longrightarrow> edgesConnected X s' = edgesConnected X s"
  by (simp add: edgesConnected_def)

lemma shortcutOf_cong:
  "ct_in s' = ct_in s \<Longrightarrow> ct_out s' = ct_out s \<Longrightarrow> shortcutOf X s' = shortcutOf X s"
  by (simp add: shortcutOf_def)

text \<open>
  Claim C1, as the code has it. Without a route, or with a route that has no edge,
  \<open>testConfig\<close> returns true and leaves the buffer and the shortcuts as they are. With a
  route that has an edge (and the two registry edges connected) it returns true exactly
  when the route is shortest or its cost is dominated; the cost is appended to the buffer
  in every such case; and a shortcut is stored, counted as shortest path, exactly when
  the route is shortest and the path count is 1 or an edge of the route ends in the
  selected set. When the registry edges are not connected, the call raises exactly in
  the case that would store a shortcut.
\<close>

theorem testConfig_spec:
  "(findBestRoute X (he_end (ct_in s)) (he_end (ct_out s)) c = None
      \<longrightarrow> (\<exists>s'. testConfig X c s = Inr (True, s')
                 \<and> constraints s' = constraints s \<and> shortcuts s' = shortcuts s))
   \<and> (\<forall>r. findBestRoute X (he_end (ct_in s)) (he_end (ct_out s)) c = Some r \<and> edges r = []
      \<longrightarrow> (\<exists>s'. testConfig X c s = Inr (True, s')
                 \<and> constraints s' = constraints s \<and> shortcuts s' = shortcuts s))
   \<and> (\<forall>r. findBestRoute X (he_end (ct_in s)) (he_end (ct_out s)) c = Some r \<and> edges r \<noteq> []
            \<and> edgesConnected X s
      \<longrightarrow> (\<exists>b s'. testConfig X c s = Inr (b, s')
             \<and> (b \<longleftrightarrow> probe_isShortest X s r \<or> isDominated (Cost_dim X) (shortcutCost s) (costs r))
             \<and> constraints s' = constraints s @ [costs r]
             \<and> currentCost s' = costs r
             \<and> shortcuts s' = (if necessaryByShortest X s r then shortcuts s @ [shortcutOf X s]
                               else shortcuts s)
             \<and> shortCount (stats s') = (if necessaryByShortest X s r then shortCount (stats s) + 1
                                        else shortCount (stats s))))
   \<and> (\<forall>r. findBestRoute X (he_end (ct_in s)) (he_end (ct_out s)) c = Some r \<and> edges r \<noteq> []
            \<and> \<not> edgesConnected X s
      \<longrightarrow> ((\<exists>e. testConfig X c s = Inl e) \<longleftrightarrow> necessaryByShortest X s r))"
proof (intro conjI allI impI)
  assume "findBestRoute X (he_end (ct_in s)) (he_end (ct_out s)) c = None"
  then show "\<exists>s'. testConfig X c s = Inr (True, s')
                 \<and> constraints s' = constraints s \<and> shortcuts s' = shortcuts s"
    by (simp add: testConfig_noRoute)
next
  fix r
  assume "findBestRoute X (he_end (ct_in s)) (he_end (ct_out s)) c = Some r \<and> edges r = []"
  then show "\<exists>s'. testConfig X c s = Inr (True, s')
                 \<and> constraints s' = constraints s \<and> shortcuts s' = shortcuts s"
    by (simp add: testConfig_emptyRoute)
next
  fix r
  let ?s3 = "s\<lparr>currentCost := costs r, route := r, constraints := constraints s @ [costs r]\<rparr>"
  assume a: "findBestRoute X (he_end (ct_in s)) (he_end (ct_out s)) c = Some r \<and> edges r \<noteq> []
            \<and> edgesConnected X s"
  then have conn: "edgesConnected X ?s3"
    by (simp add: edgesConnected_def)
  have sc: "shortcutOf X ?s3 = shortcutOf X s"
    by (simp add: shortcutOf_def)
  have nsp: "necessaryByShortest X s r \<Longrightarrow> probe_isShortest X s r"
    by (simp add: necessaryByShortest_def)
  from a have tc: "testConfig X c s =
     (if probe_isShortest X s r
      then (if necessaryByShortest X s r
            then (case storeShortcut X shortestPath ?s3 of
                    Inl e \<Rightarrow> Inl e | Inr s4 \<Rightarrow> Inr (True, s4))
            else Inr (True, ?s3))
      else if isDominated (Cost_dim X) (shortcutCost s) (costs r)
      then Inr (True, ?s3)
      else Inr (False, ?s3))"
    by (simp add: testConfig_route)
  show "\<exists>b s'. testConfig X c s = Inr (b, s')
             \<and> (b \<longleftrightarrow> probe_isShortest X s r \<or> isDominated (Cost_dim X) (shortcutCost s) (costs r))
             \<and> constraints s' = constraints s @ [costs r]
             \<and> currentCost s' = costs r
             \<and> shortcuts s' = (if necessaryByShortest X s r then shortcuts s @ [shortcutOf X s]
                               else shortcuts s)
             \<and> shortCount (stats s') = (if necessaryByShortest X s r then shortCount (stats s) + 1
                                        else shortCount (stats s))"
    unfolding tc storeShortcut_connected [OF conn] sc
    using nsp by (simp add: recordMaxValues_def)
next
  fix r
  let ?s3 = "s\<lparr>currentCost := costs r, route := r, constraints := constraints s @ [costs r]\<rparr>"
  assume a: "findBestRoute X (he_end (ct_in s)) (he_end (ct_out s)) c = Some r \<and> edges r \<noteq> []
            \<and> \<not> edgesConnected X s"
  then have conn: "\<not> edgesConnected X ?s3"
    by (simp add: edgesConnected_def)
  have nsp: "necessaryByShortest X s r \<Longrightarrow> probe_isShortest X s r"
    by (simp add: necessaryByShortest_def)
  from a have tc: "testConfig X c s =
     (if probe_isShortest X s r
      then (if necessaryByShortest X s r
            then (case storeShortcut X shortestPath ?s3 of
                    Inl e \<Rightarrow> Inl e | Inr s4 \<Rightarrow> Inr (True, s4))
            else Inr (True, ?s3))
      else if isDominated (Cost_dim X) (shortcutCost s) (costs r)
      then Inr (True, ?s3)
      else Inr (False, ?s3))"
    by (simp add: testConfig_route)
  show "(\<exists>e. testConfig X c s = Inl e) \<longleftrightarrow> necessaryByShortest X s r"
    unfolding tc storeShortcut_disconnected [OF conn]
    using nsp by auto
qed

theorem testConfig_spec_witness:
  "(\<exists>s'. testConfig (ex_X (ex_route [2, 2] [0, 1] 2) (ex_route [2, 1] [2, 3] 1) False) [1, 0]
            (ex_thread 5 [[3, 0]]) = Inr (True, s')
         \<and> constraints s' = [[3, 0]] \<and> shortcuts s' = [])
   \<and> (\<exists>s'. testConfig (ex_X (ex_route [2, 2] [0, 1] 2) (ex_route [2, 1] [2, 3] 1) False) [1, 0]
            (ex_thread 0 [[3, 0]]) = Inr (True, s')
         \<and> constraints s' = [[3, 0], [2, 2]] \<and> map children (shortcuts s') = [Some (0, 1)]
         \<and> shortCount (stats s') = 1)
   \<and> (\<exists>s'. testConfig (ex_X (ex_route [2, 2] [0, 1] 2) (ex_route [2, 1] [2, 3] 1) False) [0, 1]
            (ex_thread 0 [[3, 0]]) = Inr (True, s')
         \<and> constraints s' = [[3, 0], [2, 1]] \<and> shortcuts s' = [])
   \<and> (\<exists>s'. testConfig (ex_X (ex_route [2, 2] [0, 1] 2) (ex_route [3, 0] [2, 3] 1) False) [0, 1]
            (ex_thread 0 [[3, 0]]) = Inr (False, s')
         \<and> constraints s' = [[3, 0], [3, 0]] \<and> shortcuts s' = [])"
proof -
  let ?X = "ex_X (ex_route [2, 2] [0, 1] 2) (ex_route [2, 1] [2, 3] 1) False"
  let ?Y = "ex_X (ex_route [2, 2] [0, 1] 2) (ex_route [3, 0] [2, 3] 1) False"
  have a: "\<exists>s'. testConfig ?X [1, 0] (ex_thread 5 [[3, 0]]) = Inr (True, s')
         \<and> constraints s' = [[3, 0]] \<and> shortcuts s' = []"
    using testConfig_spec [of ?X "ex_thread 5 [[3, 0]]" "[1, 0]"]
    by (auto simp: ex_defs)
  have b: "\<exists>s'. testConfig ?X [1, 0] (ex_thread 0 [[3, 0]]) = Inr (True, s')
         \<and> constraints s' = [[3, 0], [2, 2]] \<and> map children (shortcuts s') = [Some (0, 1)]
         \<and> shortCount (stats s') = 1"
    using testConfig_spec [of ?X "ex_thread 0 [[3, 0]]" "[1, 0]"]
    by (auto simp: ex_defs edgesConnected_def necessaryByShortest_def probe_isShortest_def
        shortcutOf_def isDominated_components all2 ex2 upt2 Cost_add_def Cost_eq_def)
  have c: "\<exists>s'. testConfig ?X [0, 1] (ex_thread 0 [[3, 0]]) = Inr (True, s')
         \<and> constraints s' = [[3, 0], [2, 1]] \<and> shortcuts s' = []"
    using testConfig_spec [of ?X "ex_thread 0 [[3, 0]]" "[0, 1]"]
    by (auto simp: ex_defs edgesConnected_def necessaryByShortest_def probe_isShortest_def
        shortcutOf_def isDominated_components all2 ex2 upt2 Cost_add_def Cost_eq_def)
  have d: "\<exists>s'. testConfig ?Y [0, 1] (ex_thread 0 [[3, 0]]) = Inr (False, s')
         \<and> constraints s' = [[3, 0], [3, 0]] \<and> shortcuts s' = []"
    using testConfig_spec [of ?Y "ex_thread 0 [[3, 0]]" "[0, 1]"]
    by (auto simp: ex_defs edgesConnected_def necessaryByShortest_def probe_isShortest_def
        shortcutOf_def isDominated_components all2 ex2 upt2 Cost_add_def Cost_eq_def)
  from a b c d show ?thesis by blast
qed

text \<open>
  Claim C1 as stated fails: a shortest route with two co-optimal paths and no selected
  node on it is none of the three cases of the claim (a route is found, no shortcut is
  necessary by the shortest-path test, and the cost is not dominated), yet \<open>testConfig\<close>
  returns true. And in the case of a dominated cost, one of the three cases, the cost is
  appended to the buffer, which was empty.
\<close>

theorem testConfig_counterexample:
  "findBestRoute (ex_X (ex_route [2, 2] [5, 6] 2) (ex_route [2, 2] [5, 6] 2) False)
      (he_end (ct_in (ex_thread 0 []))) (he_end (ct_out (ex_thread 0 []))) [1 / 2, 1 / 2]
     = Some (ex_route [2, 2] [5, 6] 2)
   \<and> \<not> necessaryByShortest (ex_X (ex_route [2, 2] [5, 6] 2) (ex_route [2, 2] [5, 6] 2) False)
         (ex_thread 0 []) (ex_route [2, 2] [5, 6] 2)
   \<and> \<not> isDominated 2 (shortcutCost (ex_thread 0 [])) [2, 2]
   \<and> testConfig (ex_X (ex_route [2, 2] [5, 6] 2) (ex_route [2, 2] [5, 6] 2) False) [1 / 2, 1 / 2]
        (ex_thread 0 [])
       = Inr (True, (ex_thread 0 [])\<lparr>currentCost := [2, 2], route := ex_route [2, 2] [5, 6] 2,
                                      constraints := [[2, 2]]\<rparr>)
   \<and> constraints (ex_thread 0 []) = []
   \<and> isDominated 2 (shortcutCost (ex_thread 0 [])) [2, 1]
   \<and> testConfig (ex_X (ex_route [2, 1] [2, 3] 1) (ex_route [2, 1] [2, 3] 1) False) [1 / 2, 1 / 2]
        (ex_thread 0 [])
       = Inr (True, (ex_thread 0 [])\<lparr>currentCost := [2, 1], route := ex_route [2, 1] [2, 3] 1,
                                      constraints := [[2, 1]]\<rparr>)"
  by (simp add: ex_defs testConfig_def checkShortestPath_def necessaryByShortest_def
      probe_isShortest_def isDominated_components all2 ex2 upt2 Cost_add_def Cost_eq_def)

section \<open>The main loop\<close>

lemma testConfig_False:
  assumes "testConfig X c s = Inr (False, s1)"
  shows "\<exists>r. s1 = s\<lparr>currentCost := costs r, route := r, constraints := constraints s @ [costs r]\<rparr>"
proof (cases "findBestRoute X (he_end (ct_in s)) (he_end (ct_out s)) c")
  case None
  with assms show ?thesis by (simp add: testConfig_noRoute)
next
  case (Some r)
  show ?thesis
  proof (cases "edges r = []")
    case True
    with Some assms show ?thesis by (simp add: testConfig_emptyRoute)
  next
    case False
    with Some assms show ?thesis
      by (auto simp: testConfig_route split: if_splits sum.splits)
  qed
qed

lemma fold_addConstraint:
  "fold (addConstraint X) cs s =
     s\<lparr>lp := fold (\<lambda>c. lp_addConstraint X (Cost_sub c (shortcutCost s))) cs (lp s)\<rparr>"
  by (induction cs arbitrary: s) (simp_all add: addConstraint_def)

lemma lpPush_eq:
  "lpPush X s =
     s\<lparr>constraints := constraints (dedupConstraints X s),
       lp := fold (\<lambda>c. lp_addConstraint X (Cost_sub c (shortcutCost s)))
               (constraints (dedupConstraints X s)) (lp s),
       lpCount := lpCount s + 1\<rparr>"
  by (simp add: lpPush_def Let_def fold_addConstraint dedupConstraints_def)

lemma lpStep_False:
  assumes "lpStep X a = Inr (False, b)"
  shows "shortcuts b = shortcuts a \<and> ct_in b = ct_in a \<and> ct_out b = ct_out a
     \<and> shortCount (stats b) = shortCount (stats a) \<and> sameCount (stats b) = sameCount (stats a)
     \<and> unknown (stats b) = unknown (stats a)"
proof (cases "testConfig X (config a) a")
  case (Inl e)
  with assms show ?thesis by (simp add: lpStep_def)
next
  case (Inr p)
  obtain d s1 where p: "p = (d, s1)" by (cases p)
  show ?thesis
  proof (cases d)
    case True
    with Inr p assms show ?thesis by (simp add: lpStep_def)
  next
    case False
    with Inr p have "testConfig X (config a) a = Inr (False, s1)" by simp
    then obtain r where s1: "s1 = a\<lparr>currentCost := costs r, route := r,
        constraints := constraints a @ [costs r]\<rparr>"
      using testConfig_False by blast
    from assms Inr p False show ?thesis
      unfolding lpStep_def lpPush_eq s1
      by (auto simp: Let_def split: if_splits sum.splits)
  qed
qed


lemma lpLoop_continue:
  "lpStep X a = Inr (False, b) \<Longrightarrow> lpLoop X a = lpLoop X b"
  by (subst lpLoop.simps) simp

lemma rounds_lpLoop:
  "(\<lambda>a b. lpStep X a = Inr (False, b))\<^sup>*\<^sup>* s0 s \<Longrightarrow> lpLoop X s0 = lpLoop X s"
  by (induction rule: rtranclp_induct) (simp_all add: lpLoop_continue)

lemma rounds_fields:
  "(\<lambda>a b. lpStep X a = Inr (False, b))\<^sup>*\<^sup>* s0 s \<Longrightarrow>
     shortcuts s = shortcuts s0 \<and> ct_in s = ct_in s0 \<and> ct_out s = ct_out s0
     \<and> shortCount (stats s) = shortCount (stats s0) \<and> sameCount (stats s) = sameCount (stats s0)
     \<and> unknown (stats s) = unknown (stats s0)"
proof (induction rule: rtranclp_induct)
  case base
  show ?case by simp
next
  case (step y z)
  from lpStep_False [OF step.hyps(2)] step.IH show ?case by simp
qed

lemma lpStep_infeasible:
  assumes "testConfig X (config s) s = Inr (False, s1)"
      and "\<not> fst (lp_solve X (lp (lpPush X s1)))"
  shows "\<exists>s'. lpStep X s = Inr (True, s') \<and> shortcuts s' = shortcuts s
     \<and> shortCount (stats s') = shortCount (stats s) \<and> sameCount (stats s') = sameCount (stats s)
     \<and> unknown (stats s') = unknown (stats s)"
proof -
  obtain r where s1: "s1 = s\<lparr>currentCost := costs r, route := r,
        constraints := constraints s @ [costs r]\<rparr>"
    using testConfig_False [OF assms(1)] by blast
  show ?thesis
    using assms(2) unfolding lpStep_def assms(1) lpPush_eq s1
    by (simp add: Let_def recordMaxValues_def)
qed

lemma lpStep_fixedPoint:
  assumes "testConfig X (config s) s = Inr (False, s1)"
      and "fst (lp_solve X (lp (lpPush X s1)))"
      and "Config_eq (lp_variableValues X (snd (lp_solve X (lp (lpPush X s1))))) (config s)"
      and "edgesConnected X s"
  shows "\<exists>s'. lpStep X s = Inr (True, s') \<and> shortcuts s' = shortcuts s @ [shortcutOf X s]
     \<and> shortCount (stats s') = shortCount (stats s)
     \<and> sameCount (stats s') =
          (if Cost_dot (currentCost s1) (config s) \<ge> Cost_dot (shortcutCost s) (config s) - COST_ACCURACY X
           then sameCount (stats s) + 1 else sameCount (stats s))
     \<and> unknown (stats s') =
          (if Cost_dot (currentCost s1) (config s) \<ge> Cost_dot (shortcutCost s) (config s) - COST_ACCURACY X
           then unknown (stats s) else unknown (stats s) + 1)"
proof -
  obtain r where s1: "s1 = s\<lparr>currentCost := costs r, route := r,
        constraints := constraints s @ [costs r]\<rparr>"
    using testConfig_False [OF assms(1)] by blast
  let ?s5 = "(lpPush X s1)\<lparr>lp := snd (lp_solve X (lp (lpPush X s1)))\<rparr>"
  have f: "config ?s5 = config s" "currentCost ?s5 = costs r" "shortcutCost ?s5 = shortcutCost s"
    "shortcuts ?s5 = shortcuts s" "stats ?s5 = stats s"
    by (simp_all add: lpPush_eq s1)
  have conn: "edgesConnected X ?s5"
    using assms(4) by (simp add: edgesConnected_def lpPush_eq s1)
  have sc: "shortcutOf X ?s5 = shortcutOf X s"
    by (simp add: shortcutOf_def lpPush_eq s1)
  have step: "lpStep X s = (case storeShortcut X
                 (if Cost_dot (currentCost ?s5) (config ?s5)
                       \<ge> Cost_dot (shortcutCost ?s5) (config ?s5) - COST_ACCURACY X
                  then repeatingConfig else unknownReason) ?s5 of
                Inl e \<Rightarrow> Inl e | Inr s6 \<Rightarrow> Inr (True, s6))"
    using assms(2,3) f(1) unfolding lpStep_def assms(1) by (simp add: Let_def)
  show ?thesis
    unfolding step storeShortcut_connected [OF conn] sc
    by (simp add: f recordMaxValues_def s1 lpPush_eq)
qed

text \<open>
  Claim C3. Let the main loop be entered in state \<open>s0\<close> and reach state \<open>s\<close> after any
  number of rounds that did not leave it, and let the probe of this round be inconclusive
  (\<open>testConfig\<close> returns false). If the solver then reports failure, the loop returns
  with the shortcuts and the three shortcut counters of \<open>s0\<close>: no shortcut is emitted for
  the pair. If the solver succeeds and proposes the current configuration, the loop
  returns with exactly one more shortcut, the one of the pair, counted as repeating
  configuration when \<open>currentCost \<cdot> config \<ge> shortcutCost \<cdot> config - COST_ACCURACY\<close> and as
  unknown reason otherwise.
\<close>

theorem lpLoop_exits:
  assumes rounds: "(\<lambda>a b. lpStep X a = Inr (False, b))\<^sup>*\<^sup>* s0 s"
      and probe: "testConfig X (config s) s = Inr (False, s1)"
      and conn: "edgesConnected X s0"
  shows "(\<not> fst (lp_solve X (lp (lpPush X s1))) \<longrightarrow>
           (\<exists>s'. lpLoop X s0 = Some (Inr s') \<and> shortcuts s' = shortcuts s0
              \<and> shortCount (stats s') = shortCount (stats s0)
              \<and> sameCount (stats s') = sameCount (stats s0)
              \<and> unknown (stats s') = unknown (stats s0)))
       \<and> (fst (lp_solve X (lp (lpPush X s1)))
            \<and> Config_eq (lp_variableValues X (snd (lp_solve X (lp (lpPush X s1))))) (config s) \<longrightarrow>
           (\<exists>s'. lpLoop X s0 = Some (Inr s') \<and> shortcuts s' = shortcuts s0 @ [shortcutOf X s0]
              \<and> shortCount (stats s') = shortCount (stats s0)
              \<and> sameCount (stats s') =
                   (if Cost_dot (currentCost s1) (config s)
                         \<ge> Cost_dot (shortcutCost s) (config s) - COST_ACCURACY X
                    then sameCount (stats s0) + 1 else sameCount (stats s0))
              \<and> unknown (stats s') =
                   (if Cost_dot (currentCost s1) (config s)
                         \<ge> Cost_dot (shortcutCost s) (config s) - COST_ACCURACY X
                    then unknown (stats s0) else unknown (stats s0) + 1)))"
proof (intro conjI impI)
  note fs = rounds_fields [OF rounds]
  have loop: "lpLoop X s0 = lpLoop X s"
    by (rule rounds_lpLoop [OF rounds])
  {
    assume "\<not> fst (lp_solve X (lp (lpPush X s1)))"
    from lpStep_infeasible [OF probe this] obtain s' where
      "lpStep X s = Inr (True, s')" and r: "shortcuts s' = shortcuts s"
      "shortCount (stats s') = shortCount (stats s)" "sameCount (stats s') = sameCount (stats s)"
      "unknown (stats s') = unknown (stats s)"
      by blast
    then have "lpLoop X s = Some (Inr s')"
      by (subst lpLoop.simps) simp
    with loop r fs show "\<exists>s'. lpLoop X s0 = Some (Inr s') \<and> shortcuts s' = shortcuts s0
              \<and> shortCount (stats s') = shortCount (stats s0)
              \<and> sameCount (stats s') = sameCount (stats s0)
              \<and> unknown (stats s') = unknown (stats s0)"
      by simp
  next
    assume a: "fst (lp_solve X (lp (lpPush X s1)))
            \<and> Config_eq (lp_variableValues X (snd (lp_solve X (lp (lpPush X s1))))) (config s)"
    have c: "edgesConnected X s"
      using conn fs by (simp add: edgesConnected_def)
    have sc: "shortcutOf X s = shortcutOf X s0"
      using fs by (simp add: shortcutOf_def)
    from lpStep_fixedPoint [OF probe conjunct1 [OF a] conjunct2 [OF a] c] obtain s' where
      "lpStep X s = Inr (True, s')" and r: "shortcuts s' = shortcuts s @ [shortcutOf X s]"
      "shortCount (stats s') = shortCount (stats s)"
      "sameCount (stats s') =
          (if Cost_dot (currentCost s1) (config s) \<ge> Cost_dot (shortcutCost s) (config s) - COST_ACCURACY X
           then sameCount (stats s) + 1 else sameCount (stats s))"
      "unknown (stats s') =
          (if Cost_dot (currentCost s1) (config s) \<ge> Cost_dot (shortcutCost s) (config s) - COST_ACCURACY X
           then unknown (stats s) else unknown (stats s) + 1)"
      by blast
    then have "lpLoop X s = Some (Inr s')"
      by (subst lpLoop.simps) simp
    with loop r fs sc show "\<exists>s'. lpLoop X s0 = Some (Inr s') \<and> shortcuts s' = shortcuts s0 @ [shortcutOf X s0]
              \<and> shortCount (stats s') = shortCount (stats s0)
              \<and> sameCount (stats s') =
                   (if Cost_dot (currentCost s1) (config s)
                         \<ge> Cost_dot (shortcutCost s) (config s) - COST_ACCURACY X
                    then sameCount (stats s0) + 1 else sameCount (stats s0))
              \<and> unknown (stats s') =
                   (if Cost_dot (currentCost s1) (config s)
                         \<ge> Cost_dot (shortcutCost s) (config s) - COST_ACCURACY X
                    then unknown (stats s0) else unknown (stats s0) + 1)"
      by simp
  }
qed


lemma ex_testConfig_open:
  "testConfig (ex_X r0 (ex_route [3, 0] [2, 3] 1) f) [1 / 2, 1 / 2] (ex_thread 0 cs)
     = Inr (False, (ex_thread 0 cs)\<lparr>currentCost := [3, 0], route := ex_route [3, 0] [2, 3] 1,
                                     constraints := cs @ [[3, 0]]\<rparr>)"
  by (simp add: ex_defs testConfig_def checkShortestPath_def
      isDominated_components all2 ex2 upt2 Cost_add_def Cost_eq_def)

lemma ex_testConfig_tie:
  "testConfig (ex_X r0 (ex_route [1, 3] [2, 3] 1) f) [1 / 2, 1 / 2] (ex_thread 0 cs)
     = Inr (False, (ex_thread 0 cs)\<lparr>currentCost := [1, 3], route := ex_route [1, 3] [2, 3] 1,
                                     constraints := cs @ [[1, 3]]\<rparr>)"
  by (simp add: ex_defs testConfig_def checkShortestPath_def
      isDominated_components all2 ex2 upt2 Cost_add_def Cost_eq_def)

theorem lpLoop_exits_witness:
  "(\<exists>s'. lpLoop (ex_X (ex_route [3, 0] [2, 3] 1) (ex_route [3, 0] [2, 3] 1) False) (ex_thread 0 [])
            = Some (Inr s')
         \<and> shortcuts s' = [] \<and> shortCount (stats s') = 0 \<and> sameCount (stats s') = 0
         \<and> unknown (stats s') = 0)
   \<and> (\<exists>s'. lpLoop (ex_X (ex_route [3, 0] [2, 3] 1) (ex_route [3, 0] [2, 3] 1) True) (ex_thread 0 [])
            = Some (Inr s')
         \<and> map children (shortcuts s') = [Some (0, 1)] \<and> shortCount (stats s') = 0
         \<and> sameCount (stats s') = 0 \<and> unknown (stats s') = 1)
   \<and> (\<exists>s'. lpLoop (ex_X (ex_route [1, 3] [2, 3] 1) (ex_route [1, 3] [2, 3] 1) True) (ex_thread 0 [])
            = Some (Inr s')
         \<and> map children (shortcuts s') = [Some (0, 1)] \<and> shortCount (stats s') = 0
         \<and> sameCount (stats s') = 1 \<and> unknown (stats s') = 0)
   \<and> (\<exists>s'. lpLoop (ex_X (ex_route [1, 3] [2, 3] 1) (ex_route [1, 3] [2, 3] 1) True)
            ((ex_thread 0 [])\<lparr>config := [1 / 4, 3 / 4]\<rparr>) = Some (Inr s')
         \<and> map children (shortcuts s') = [Some (0, 1)] \<and> shortCount (stats s') = 0
         \<and> sameCount (stats s') = 1 \<and> unknown (stats s') = 0)"
proof -
  let ?r = "ex_route [3, 0] [2, 3] 1" and ?t = "ex_route [1, 3] [2, 3] 1"
  let ?s = "ex_thread 0 []"
  have conn: "edgesConnected (ex_X r0 r1 f) ?s" for r0 r1 f
    by (simp add: edgesConnected_def ex_defs)
  have cfg: "config ?s = [1 / 2, 1 / 2]"
    by (simp add: ex_thread_def)
  have open_probe: "testConfig (ex_X r0 ?r f) (config ?s) ?s
     = Inr (False, ?s\<lparr>currentCost := [3, 0], route := ?r, constraints := [] @ [[3, 0]]\<rparr>)" for r0 f
    unfolding cfg by (rule ex_testConfig_open)
  have tie_probe: "testConfig (ex_X r0 ?t f) (config ?s) ?s
     = Inr (False, ?s\<lparr>currentCost := [1, 3], route := ?t, constraints := [] @ [[1, 3]]\<rparr>)" for r0 f
    unfolding cfg by (rule ex_testConfig_tie)
  have a: "\<exists>s'. lpLoop (ex_X ?r ?r False) ?s = Some (Inr s')
         \<and> shortcuts s' = [] \<and> shortCount (stats s') = 0 \<and> sameCount (stats s') = 0
         \<and> unknown (stats s') = 0"
    using lpLoop_exits [OF rtranclp.rtrancl_refl open_probe conn, of ?r False]
    by (simp add: ex_X_def ex_thread_def)
  have b: "\<exists>s'. lpLoop (ex_X ?r ?r True) ?s = Some (Inr s')
         \<and> map children (shortcuts s') = [Some (0, 1)] \<and> shortCount (stats s') = 0
         \<and> sameCount (stats s') = 0 \<and> unknown (stats s') = 1"
    using lpLoop_exits [OF rtranclp.rtrancl_refl open_probe conn, of ?r True]
    by (auto simp: ex_X_def ex_thread_def Config_eq_def Cost_dot_def shortcutOf_def ex_getEdge_def
        ex_edge_def)
  have c: "\<exists>s'. lpLoop (ex_X ?t ?t True) ?s = Some (Inr s')
         \<and> map children (shortcuts s') = [Some (0, 1)] \<and> shortCount (stats s') = 0
         \<and> sameCount (stats s') = 1 \<and> unknown (stats s') = 0"
    using lpLoop_exits [OF rtranclp.rtrancl_refl tie_probe conn, of ?t True]
    by (auto simp: ex_X_def ex_thread_def Config_eq_def Cost_dot_def shortcutOf_def ex_getEdge_def
        ex_edge_def)
  have d: "\<exists>s'. lpLoop (ex_X ?t ?t True) ((ex_thread 0 [])\<lparr>config := [1 / 4, 3 / 4]\<rparr>)
            = Some (Inr s')
         \<and> map children (shortcuts s') = [Some (0, 1)] \<and> shortCount (stats s') = 0
         \<and> sameCount (stats s') = 1 \<and> unknown (stats s') = 0"
  proof -
    let ?X = "ex_X (ex_route [1, 3] [2, 3] 1) (ex_route [1, 3] [2, 3] 1) True"
    let ?entry = "(ex_thread 0 [])\<lparr>config := [1 / 4, 3 / 4]\<rparr>"
    let ?next = "snd (projr (lpStep ?X ?entry))"
    let ?probed = "snd (projr (testConfig ?X [1 / 2, 1 / 2] ?next))"
    have "case lpStep ?X ?entry of Inl e \<Rightarrow> False | Inr p \<Rightarrow> \<not> fst p"
      by code_simp
    then have "lpStep ?X ?entry = Inr (False, ?next)"
      by (cases "lpStep ?X ?entry") auto
    then have rounds: "(\<lambda>a b. lpStep ?X a = Inr (False, b))\<^sup>*\<^sup>* ?entry ?next"
      by (rule r_into_rtranclp)
    have cfg: "config ?next = [1 / 2, 1 / 2]"
      by code_simp
    have "case testConfig ?X [1 / 2, 1 / 2] ?next of Inl e \<Rightarrow> False | Inr p \<Rightarrow> \<not> fst p"
      by code_simp
    then have "testConfig ?X [1 / 2, 1 / 2] ?next = Inr (False, ?probed)"
      by (cases "testConfig ?X [1 / 2, 1 / 2] ?next") auto
    then have probe: "testConfig ?X (config ?next) ?next = Inr (False, ?probed)"
      unfolding cfg .
    have conn: "edgesConnected ?X ?entry"
      by (simp add: edgesConnected_def ex_defs)
    have cur: "currentCost ?probed = [1, 3]" and sc: "shortcutCost ?next = [2, 2]"
      by code_simp+
    have solve: "fst (lp_solve ?X l)" and vals: "lp_variableValues ?X l = [1 / 2, 1 / 2]" for l
      by (simp_all add: ex_X_def)
    have fixed: "Config_eq (lp_variableValues ?X (snd (lp_solve ?X (lp (lpPush ?X ?probed)))))
                   (config ?next)"
      unfolding vals cfg by (simp add: Config_eq_def)
    have cmp: "Cost_dot (currentCost ?probed) (config ?next)
                 \<ge> Cost_dot (shortcutCost ?next) (config ?next) - COST_ACCURACY ?X"
      unfolding cur sc cfg by (simp add: Cost_dot_def ex_X_def)
    have entry: "shortcuts ?entry = []" "shortCount (stats ?entry) = 0"
      "sameCount (stats ?entry) = 0" "unknown (stats ?entry) = 0"
      "children (shortcutOf ?X ?entry) = Some (0, 1)"
      by (simp_all add: ex_thread_def shortcutOf_def ex_X_def ex_getEdge_def ex_edge_def)
    from lpLoop_exits [OF rounds probe conn] solve fixed
    obtain s' where "lpLoop ?X ?entry = Some (Inr s')"
      "shortcuts s' = shortcuts ?entry @ [shortcutOf ?X ?entry]"
      "shortCount (stats s') = shortCount (stats ?entry)"
      "sameCount (stats s') =
          (if Cost_dot (currentCost ?probed) (config ?next)
                \<ge> Cost_dot (shortcutCost ?next) (config ?next) - COST_ACCURACY ?X
           then sameCount (stats ?entry) + 1 else sameCount (stats ?entry))"
      "unknown (stats s') =
          (if Cost_dot (currentCost ?probed) (config ?next)
                \<ge> Cost_dot (shortcutCost ?next) (config ?next) - COST_ACCURACY ?X
           then unknown (stats ?entry) else unknown (stats ?entry) + 1)"
      by blast
    then show ?thesis
      using cmp entry by (intro exI [of _ s']) (simp only: if_True, simp)
  qed
  from a b c d show ?thesis by blast
qed

section \<open>The independent set of a level\<close>

lemma length_unselect [simp]: "length (unselect hs sel) = length sel"
  unfolding unselect_def by (induction hs arbitrary: sel) simp_all

lemma update_False_nth:
  "j < length xs \<Longrightarrow> xs[i := False] ! j \<longleftrightarrow> xs ! j \<and> i \<noteq> j"
  by (cases "i < length xs") (auto simp: nth_list_update)

lemma unselect_nth:
  "i < length sel \<Longrightarrow> unselect hs sel ! i \<longleftrightarrow> sel ! i \<and> i \<notin> he_end ` set hs"
  unfolding unselect_def
  by (induction hs arbitrary: sel) (auto simp: update_False_nth)

lemma neighbours_edge:
  "e \<in> set (g_edges g) \<Longrightarrow> ge_dest e \<in> neighbours g (ge_source e)"
  by (force simp: neighbours_def getOutgoingEdgesOf_def)

lemma neighbours_sym: "v \<in> neighbours g u \<Longrightarrow> u \<in> neighbours g v"
  by (force simp: neighbours_def getOutgoingEdgesOf_def getIngoingEdgesOf_def)

lemma unselect_both_nth:
  "i < length sel \<Longrightarrow>
   unselect (getOutgoingEdgesOf g pos) (unselect (getIngoingEdgesOf g pos) sel) ! i
     \<longleftrightarrow> sel ! i \<and> i \<notin> neighbours g pos"
  by (auto simp: unselect_nth neighbours_def)

lemma sweep_independent:
  assumes "\<forall>u\<in>S. \<forall>v\<in>neighbours g u. v < length sel \<longrightarrow> \<not> sel ! v"
      and "\<forall>u\<in>S. \<forall>v\<in>S. u \<noteq> v \<longrightarrow> v \<notin> neighbours g u"
      and "\<forall>n\<in>set ns. snd n < length sel"
  shows "\<forall>u\<in>sweep g ns sel S. \<forall>v\<in>sweep g ns sel S. u \<noteq> v \<longrightarrow> v \<notin> neighbours g u"
  using assms
proof (induction ns arbitrary: sel S)
  case Nil
  then show ?case by simp
next
  case (Cons n ns)
  let ?pos = "snd n"
  let ?sel = "unselect (getOutgoingEdgesOf g ?pos) (unselect (getIngoingEdgesOf g ?pos) sel)"
  show ?case
  proof (cases "sel ! ?pos")
    case False
    with Cons.IH [of S sel] Cons.prems show ?thesis by (simp add: Let_def)
  next
    case True
    have pos: "?pos < length sel"
      using Cons.prems(3) by simp
    have notnb: "?pos \<notin> neighbours g u" if "u \<in> S" for u
      using Cons.prems(1) that pos True by blast
    have a: "\<forall>u\<in>insert ?pos S. \<forall>v\<in>neighbours g u. v < length ?sel \<longrightarrow> \<not> ?sel ! v"
      using Cons.prems(1) by (auto simp: unselect_both_nth)
    have b: "\<forall>u\<in>insert ?pos S. \<forall>v\<in>insert ?pos S. u \<noteq> v \<longrightarrow> v \<notin> neighbours g u"
      using Cons.prems(2) notnb neighbours_sym by blast
    have c: "\<forall>n\<in>set ns. snd n < length ?sel"
      using Cons.prems(3) by simp
    from Cons.IH [OF a b c] True show ?thesis by (simp add: Let_def)
  qed
qed

lemma sweep_subset: "sweep g ns sel S \<subseteq> S \<union> snd ` set ns"
  by (induction ns arbitrary: sel S) (auto simp: Let_def split: if_splits)


lemma independentSet_range: "independentSet g \<subseteq> {0..<getNodeCount g}"
proof -
  have "independentSet g \<subseteq> {} \<union> snd ` set (sort (map (\<lambda>i. (degreeProduct g i, i)) [0..<getNodeCount g]))"
    unfolding independentSet_def Let_def by (rule sweep_subset)
  then show ?thesis by auto
qed

lemma finite_independentSet: "finite (independentSet g)"
  using independentSet_range finite_subset by blast

lemma independentSet_independent:
  "\<forall>u\<in>independentSet g. \<forall>v\<in>independentSet g. u \<noteq> v \<longrightarrow> v \<notin> neighbours g u"
  unfolding independentSet_def Let_def
  by (rule sweep_independent) auto

lemma reduce_subset: "finite S \<Longrightarrow> reduce S g \<subseteq> S"
proof -
  assume fin: "finite S"
  have "set (map snd (take k (sort (map (\<lambda>p. (degreeProduct g p, p)) (sorted_list_of_set S))))) \<subseteq> S" for k
  proof -
    have "set (take k (sort (map (\<lambda>p. (degreeProduct g p, p)) (sorted_list_of_set S))))
            \<subseteq> set (sort (map (\<lambda>p. (degreeProduct g p, p)) (sorted_list_of_set S)))"
      by (rule set_take_subset)
    then show ?thesis using fin by auto
  qed
  then show ?thesis
    unfolding reduce_def Let_def by simp
qed

text \<open>
  Claim C4, as the code has it. No edge of the graph between two different nodes has both
  its ends in \<open>reduce (independentSet g) g\<close>: the sweep selects a node only while it is
  marked selectable and marks the ends of all its half edges, and \<open>reduce\<close> returns a
  subset of the greedy set.
\<close>

theorem reduce_independentSet_independent:
  "\<forall>e\<in>set (g_edges g).
     ge_source e \<noteq> ge_dest e \<longrightarrow>
       \<not> (ge_source e \<in> reduce (independentSet g) g \<and> ge_dest e \<in> reduce (independentSet g) g)"
proof (intro ballI impI notI)
  fix e
  assume e: "e \<in> set (g_edges g)" and ne: "ge_source e \<noteq> ge_dest e"
    and "ge_source e \<in> reduce (independentSet g) g \<and> ge_dest e \<in> reduce (independentSet g) g"
  then have "ge_source e \<in> independentSet g" "ge_dest e \<in> independentSet g"
    using reduce_subset [OF finite_independentSet] by blast+
  with independentSet_independent neighbours_edge [OF e] ne show False
    by blast
qed


theorem reduce_independentSet_independent_witness:
  "reduce (independentSet ex_graph) ex_graph = {0, 2}
   \<and> \<not> (ge_source (ex_gedge 0 0 1) \<in> reduce (independentSet ex_graph) ex_graph
          \<and> ge_dest (ex_gedge 0 0 1) \<in> reduce (independentSet ex_graph) ex_graph)
   \<and> \<not> (ge_source (ex_gedge 3 3 2) \<in> reduce (independentSet ex_graph) ex_graph
          \<and> ge_dest (ex_gedge 3 3 2) \<in> reduce (independentSet ex_graph) ex_graph)"
proof -
  have R: "reduce (independentSet ex_graph) ex_graph = {0, 2}"
    by code_simp
  have e0: "ex_gedge 0 0 1 \<in> set (g_edges ex_graph)" and e3: "ex_gedge 3 3 2 \<in> set (g_edges ex_graph)"
    by (simp_all add: ex_graph_def)
  have n0: "ge_source (ex_gedge 0 0 1) \<noteq> ge_dest (ex_gedge 0 0 1)"
    and n3: "ge_source (ex_gedge 3 3 2) \<noteq> ge_dest (ex_gedge 3 3 2)"
    by (simp_all add: ex_gedge_def)
  from reduce_independentSet_independent [of ex_graph, THEN bspec, OF e0] n0
       reduce_independentSet_independent [of ex_graph, THEN bspec, OF e3] n3 R
  show ?thesis by blast
qed


text \<open>
  Claim C4 as stated fails for an edge from a node to itself: the sweep marks the node
  when it selects it and inserts it all the same, so both ends of the edge are in the
  returned set.
\<close>

theorem reduce_independentSet_counterexample:
  "ex_gedge 0 0 0 \<in> set (g_edges ex_loop_graph)
   \<and> ge_source (ex_gedge 0 0 0) \<in> reduce (independentSet ex_loop_graph) ex_loop_graph
   \<and> ge_dest (ex_gedge 0 0 0) \<in> reduce (independentSet ex_loop_graph) ex_loop_graph"
proof -
  have R: "reduce (independentSet ex_loop_graph) ex_loop_graph = {0}"
    by code_simp
  show ?thesis
    unfolding R by (simp add: ex_loop_graph_def ex_gedge_def)
qed

section \<open>The quartile\<close>

lemma reduce_alt:
  fixes g :: Graph
  assumes "finite S"
  defines "xs \<equiv> sort (map (\<lambda>p. (degreeProduct g p, p)) (sorted_list_of_set S))"
  defines "k \<equiv> (if card S < 4 then card S else card S div 4)"
  shows "reduce S g = snd ` set (take k xs)"
    and "distinct (map snd xs)" and "length xs = card S" and "sorted xs"
    and "set xs = (\<lambda>p. (degreeProduct g p, p)) ` S"
proof -
  have len: "length xs = card S"
    unfolding xs_def by simp
  show "length xs = card S" by (rule len)
  show "reduce S g = snd ` set (take k xs)"
    unfolding reduce_def Let_def xs_def k_def by simp
  show "sorted xs" unfolding xs_def by simp
  show img: "set xs = (\<lambda>p. (degreeProduct g p, p)) ` S"
    unfolding xs_def using assms(1) by simp
  have "set (map snd xs) = S"
    unfolding set_map img by force
  then have "card (set (map snd xs)) = length (map snd xs)"
    using len by simp
  then show "distinct (map snd xs)"
    by (rule card_distinct)
qed

text \<open>
  Claim C8. For a finite set \<open>S\<close>, \<open>reduce S g\<close> is \<open>S\<close> itself when \<open>S\<close> has fewer than 4
  elements, and otherwise a subset of \<open>S\<close> with \<open>card S div 4\<close> elements; every node it
  keeps has a score at most the score of every node it drops, ties decided by the
  position (the pair of score and position of a kept node is below that of a dropped one).
\<close>

theorem reduce_quartile:
  assumes "finite S"
  shows "(card S < 4 \<longrightarrow> reduce S g = S)
       \<and> (4 \<le> card S \<longrightarrow> card (reduce S g) = card S div 4)
       \<and> reduce S g \<subseteq> S
       \<and> (\<forall>p\<in>reduce S g. \<forall>q\<in>S - reduce S g.
             degreeProduct g p \<le> degreeProduct g q
             \<and> (degreeProduct g p, p) < (degreeProduct g q, q))"
proof -
  define xs where "xs = sort (map (\<lambda>p. (degreeProduct g p, p)) (sorted_list_of_set S))"
  define k where "k = (if card S < 4 then card S else card S div 4)"
  note r = reduce_alt [OF assms, of g, folded xs_def k_def]
  have kle: "k \<le> length xs"
    unfolding k_def r(3) by simp
  have sndset: "snd ` set xs = S"
    unfolding r(5) by force
  have small: "reduce S g = S" if "card S < 4"
  proof -
    from that have "k = length xs" by (simp add: k_def r(3))
    then show ?thesis using r(1) sndset by simp
  qed
  have dist: "distinct (map snd (take k xs))"
    using r(2) by (simp add: take_map [symmetric] distinct_take)
  have card_k: "card (reduce S g) = k"
  proof -
    have "card (set (map snd (take k xs))) = length (map snd (take k xs))"
      using dist by (rule distinct_card)
    then show ?thesis using kle by (simp add: r(1))
  qed
  have big: "card (reduce S g) = card S div 4" if "4 \<le> card S"
    using card_k that by (simp add: k_def)
  have order: "degreeProduct g p \<le> degreeProduct g q
             \<and> (degreeProduct g p, p) < (degreeProduct g q, q)"
    if p: "p \<in> reduce S g" and q: "q \<in> S - reduce S g" for p q
  proof -
    from p obtain c where cp: "(c, p) \<in> set (take k xs)"
      unfolding r(1) by force
    then have "(c, p) \<in> set xs" by (rule in_set_takeD)
    then have c: "c = degreeProduct g p" unfolding r(5) by auto
    from q have "(degreeProduct g q, q) \<in> set xs" unfolding r(5) by simp
    then have "(degreeProduct g q, q) \<in> set (take k xs) \<union> set (drop k xs)"
      by (simp flip: set_append)
    moreover have "(degreeProduct g q, q) \<notin> set (take k xs)"
      using q unfolding r(1) by force
    ultimately have qd: "(degreeProduct g q, q) \<in> set (drop k xs)" by simp
    have "sorted (take k xs @ drop k xs)" using r(4) by simp
    then have "(c, p) \<le> (degreeProduct g q, q)"
      unfolding sorted_append using cp qd by blast
    moreover have "p \<noteq> q" using p q by blast
    ultimately have "(degreeProduct g p, p) < (degreeProduct g q, q)"
      unfolding c by (simp add: less_le)
    then show ?thesis by (auto simp: less_prod_def)
  qed
  show ?thesis
    using small big order reduce_subset [OF assms] by blast
qed



theorem reduce_quartile_witness:
  "card (reduce {0, 1, 2, 3, 4} ex_graph) = 1 \<and> reduce {0, 1, 2, 3, 4} ex_graph = {0}
   \<and> reduce {0, 2} ex_graph = {0, 2}
   \<and> degreeProduct ex_graph 0 \<le> degreeProduct ex_graph 3"
proof -
  have c5: "card {0, 1, 2, 3, 4 :: nat} = 5" and c2: "card {0, 2 :: nat} = 2"
    by simp_all
  have R: "reduce {0, 1, 2, 3, 4} ex_graph = {0}"
    by code_simp
  have a: "card (reduce {0, 1, 2, 3, 4} ex_graph) = 1"
    using reduce_quartile [of "{0, 1, 2, 3, 4}" ex_graph] c5 by simp
  have b: "reduce {0, 2} ex_graph = {0, 2}"
    using reduce_quartile [of "{0, 2}" ex_graph] c2 by simp
  have c: "degreeProduct ex_graph 0 \<le> degreeProduct ex_graph 3"
    using reduce_quartile [of "{0, 1, 2, 3, 4}" ex_graph] unfolding R by simp
  from a b c R show ?thesis by simp
qed

section \<open>The shortcuts of a level, sorted and made unique\<close>

lemma cost_less_loop_lex:
  "cost_less_loop l r is \<longleftrightarrow> map (\<lambda>i. l ! i) is < map (\<lambda>i. r ! i) is"
  by (induction "is") auto

lemma shortcut_less_key:
  "shortcut_less cdim a b \<longleftrightarrow> shortcut_key cdim a < shortcut_key cdim b"
  by (auto simp: shortcut_less_def shortcut_key_def cost_less_loop_lex less_prod_def)

lemma cost_close_loop_all:
  "cost_close_loop acc l r is \<longleftrightarrow> (\<forall>i\<in>set is. \<bar>l ! i - r ! i\<bar> \<le> acc)"
  by (induction "is") auto

lemma shortcut_same_iff:
  "shortcut_same acc cdim a b \<longleftrightarrow>
     getSourceId a = getSourceId b \<and> getDestId a = getDestId b
     \<and> (\<forall>i<cdim. \<bar>getCost a ! i - getCost b ! i\<bar> \<le> acc)"
  by (auto simp: shortcut_same_def cost_close_loop_all)

lemma set_insort_by [simp]: "set (insort_by lt x xs) = insert x (set xs)"
  by (induction xs) auto

lemma set_std_sort [simp]: "set (std_sort lt xs) = set xs"
  unfolding std_sort_def by (induction xs) auto

lemma sorted_insort_by:
  fixes f :: "'a \<Rightarrow> 'k::linorder"
  assumes "\<And>a b. lt a b \<longleftrightarrow> f a < f b" and "sorted (map f xs)"
  shows "sorted (map f (insort_by lt x xs))"
  using assms(2) by (induction xs) (auto simp: assms(1))

lemma sorted_std_sort:
  fixes f :: "'a \<Rightarrow> 'k::linorder"
  assumes "\<And>a b. lt a b \<longleftrightarrow> f a < f b"
  shows "sorted (map f (std_sort lt xs))"
  unfolding std_sort_def
  by (induction xs) (simp_all add: sorted_insort_by [OF assms])

lemma set_std_unique_from: "set (std_unique_from same k xs) \<subseteq> set xs"
  by (induction xs arbitrary: k) auto

lemma set_std_unique: "set (std_unique same xs) \<subseteq> set xs"
proof (cases xs)
  case Nil
  then show ?thesis by simp
next
  case (Cons x ys)
  with set_std_unique_from [of same x ys] show ?thesis by auto
qed

lemma sorted_std_unique_from:
  fixes f :: "'a \<Rightarrow> 'k::linorder"
  shows "sorted (map f xs) \<Longrightarrow> sorted (map f (std_unique_from same k xs))"
proof (induction xs arbitrary: k)
  case Nil
  show ?case by simp
next
  case (Cons x xs)
  then have "sorted (map f xs)" and le: "\<forall>y\<in>set xs. f x \<le> f y" by auto
  with Cons.IH have "sorted (map f (std_unique_from same x xs))" "sorted (map f (std_unique_from same k xs))"
    by blast+
  moreover have "\<forall>y\<in>set (std_unique_from same x xs). f x \<le> f y"
    using le set_std_unique_from [of same x xs] by blast
  ultimately show ?case by auto
qed

lemma sorted_std_unique:
  fixes f :: "'a \<Rightarrow> 'k::linorder"
  assumes "sorted (map f xs)"
  shows "sorted (map f (std_unique same xs))"
proof (cases xs)
  case Nil
  then show ?thesis by simp
next
  case (Cons x ys)
  with assms have "sorted (map f ys)" and le: "\<forall>y\<in>set ys. f x \<le> f y" by auto
  then have "sorted (map f (std_unique_from same x ys))"
    by (simp add: sorted_std_unique_from)
  moreover have "\<forall>y\<in>set (std_unique_from same x ys). f x \<le> f y"
    using le set_std_unique_from [of same x ys] by blast
  ultimately show ?thesis using Cons by auto
qed

lemma successively_std_unique_from:
  "successively (\<lambda>a b. \<not> same a b) (k # std_unique_from same k xs)"
  by (induction xs arbitrary: k) auto

lemma successively_std_unique:
  "successively (\<lambda>a b. \<not> same a b) (std_unique same xs)"
  using successively_std_unique_from by (cases xs) auto

lemma covered_std_unique_from:
  assumes "\<And>a. same a a"
  shows "\<forall>x\<in>set xs. same k x \<or> (\<exists>y\<in>set (std_unique_from same k xs). same y x)"
  by (induction xs arbitrary: k) (auto simp: assms)

lemma covered_std_unique:
  assumes "\<And>a. same a a"
  shows "\<forall>x\<in>set xs. \<exists>y\<in>set (std_unique same xs). same y x"
proof (cases xs)
  case Nil
  then show ?thesis by simp
next
  case (Cons k ys)
  with covered_std_unique_from [of same ys k, OF assms] assms show ?thesis by auto
qed

text \<open>
  Claim C6, as the code has it. The comparison of the sort is the lexicographic order of
  source, destination and the cost components, and the published list is sorted by it.
  No two neighbours in the published list are duplicates (same source and destination
  and every cost component within \<^verbatim>\<open>COST_ACCURACY\<close>); nothing is published that the workers
  did not deliver; and with a tolerance that is not negative every delivered shortcut has
  a duplicate in the published list.
\<close>

theorem publishShortcuts_sorted_unique:
  "(\<forall>a b. shortcut_less cdim a b \<longleftrightarrow> shortcut_key cdim a < shortcut_key cdim b)
   \<and> sorted_wrt (\<lambda>a b. \<not> shortcut_less cdim b a) (publishShortcuts acc cdim cuts)
   \<and> sorted (map (shortcut_key cdim) (publishShortcuts acc cdim cuts))
   \<and> successively (\<lambda>a b. \<not> shortcut_same acc cdim a b) (publishShortcuts acc cdim cuts)
   \<and> set (publishShortcuts acc cdim cuts) \<subseteq> set cuts
   \<and> (0 \<le> acc \<longrightarrow>
        (\<forall>x\<in>set cuts. \<exists>y\<in>set (publishShortcuts acc cdim cuts). shortcut_same acc cdim y x))"
proof -
  have s: "sorted (map (shortcut_key cdim) (publishShortcuts acc cdim cuts))"
    unfolding publishShortcuts_def
    by (intro sorted_std_unique sorted_std_sort) (rule shortcut_less_key)
  then have "sorted_wrt (\<lambda>a b. shortcut_key cdim a \<le> shortcut_key cdim b) (publishShortcuts acc cdim cuts)"
    by (simp add: sorted_map)
  then have w: "sorted_wrt (\<lambda>a b. \<not> shortcut_less cdim b a) (publishShortcuts acc cdim cuts)"
    by (simp add: shortcut_less_key not_less)
  have u: "successively (\<lambda>a b. \<not> shortcut_same acc cdim a b) (publishShortcuts acc cdim cuts)"
    unfolding publishShortcuts_def by (rule successively_std_unique)
  have sub: "set (publishShortcuts acc cdim cuts) \<subseteq> set cuts"
    unfolding publishShortcuts_def using set_std_unique [of "shortcut_same acc cdim"] by fastforce
  have cov: "\<forall>x\<in>set cuts. \<exists>y\<in>set (publishShortcuts acc cdim cuts). shortcut_same acc cdim y x"
    if "0 \<le> acc"
  proof -
    have refl: "\<And>a. shortcut_same acc cdim a a"
      using that by (simp add: shortcut_same_iff)
    from covered_std_unique [of "shortcut_same acc cdim" "std_sort (shortcut_less cdim) cuts", OF refl]
    show ?thesis unfolding publishShortcuts_def by simp
  qed
  from s w u sub cov shortcut_less_key show ?thesis by blast
qed

lemmas ex_eval = ex_shortcut_def publishShortcuts_def std_sort_def shortcut_less_def
  shortcut_same_def upt2


theorem publishShortcuts_sorted_unique_witness:
  "publishShortcuts (1 / 1000000) 2
      [ex_shortcut [2 / 1000000, 5], ex_shortcut [1 / 4000000, 5], ex_shortcut [0, 5]]
     = [ex_shortcut [0, 5], ex_shortcut [2 / 1000000, 5]]
   \<and> \<not> shortcut_same (1 / 1000000) 2 (ex_shortcut [0, 5]) (ex_shortcut [2 / 1000000, 5])
   \<and> (\<exists>y\<in>set [ex_shortcut [0, 5], ex_shortcut [2 / 1000000, 5]].
          shortcut_same (1 / 1000000) 2 y (ex_shortcut [1 / 4000000, 5]))"
proof -
  let ?cuts = "[ex_shortcut [2 / 1000000, 5], ex_shortcut [1 / 4000000, 5], ex_shortcut [0, 5]]"
  have out: "publishShortcuts (1 / 1000000) 2 ?cuts
     = [ex_shortcut [0, 5], ex_shortcut [2 / 1000000, 5]]"
    by (simp add: ex_eval)
  note t = publishShortcuts_sorted_unique [of 2 "1 / 1000000" ?cuts]
  from t have "successively (\<lambda>a b. \<not> shortcut_same (1 / 1000000) 2 a b)
      (publishShortcuts (1 / 1000000) 2 ?cuts)"
    by blast
  then have a: "\<not> shortcut_same (1 / 1000000) 2 (ex_shortcut [0, 5]) (ex_shortcut [2 / 1000000, 5])"
    unfolding out by (simp only: successively.simps simp_thms)
  have acc: "(0::real) \<le> 1 / 1000000" by simp
  from t acc have "\<forall>x\<in>set ?cuts. \<exists>y\<in>set (publishShortcuts (1 / 1000000) 2 ?cuts).
      shortcut_same (1 / 1000000) 2 y x"
    by blast
  moreover have "ex_shortcut [1 / 4000000, 5] \<in> set ?cuts"
    by (simp only: list.set insert_iff simp_thms)
  ultimately have b: "\<exists>y\<in>set [ex_shortcut [0, 5], ex_shortcut [2 / 1000000, 5]].
          shortcut_same (1 / 1000000) 2 y (ex_shortcut [1 / 4000000, 5])"
    unfolding out by (rule bspec)
  from out a b show ?thesis by blast
qed


text \<open>
  Claim C6 as stated fails with two cost dimensions: the shortcuts of cost \<open>(0, 5)\<close> and
  \<open>(1/1000000, 5)\<close> are within the tolerance of each other, and the sort puts the shortcut
  of cost \<open>(1/2000000, 0)\<close>, a duplicate of neither, between them, so \<^verbatim>\<open>std::unique\<close>, which
  compares neighbours, keeps all three.
\<close>

theorem publishShortcuts_counterexample:
  "publishShortcuts (1 / 1000000) 2
      [ex_shortcut [1 / 2000000, 0], ex_shortcut [1 / 1000000, 5], ex_shortcut [0, 5]]
     = [ex_shortcut [0, 5], ex_shortcut [1 / 2000000, 0], ex_shortcut [1 / 1000000, 5]]
   \<and> ex_shortcut [0, 5] \<noteq> ex_shortcut [1 / 1000000, 5]
   \<and> getSourceId (ex_shortcut [0, 5]) = getSourceId (ex_shortcut [1 / 1000000, 5])
   \<and> getDestId (ex_shortcut [0, 5]) = getDestId (ex_shortcut [1 / 1000000, 5])
   \<and> \<bar>getCost (ex_shortcut [0, 5]) ! 0 - getCost (ex_shortcut [1 / 1000000, 5]) ! 0\<bar> \<le> 1 / 1000000
   \<and> \<bar>getCost (ex_shortcut [0, 5]) ! 1 - getCost (ex_shortcut [1 / 1000000, 5]) ! 1\<bar> \<le> 1 / 1000000"
  by (simp add: ex_eval)

section \<open>Warm start\<close>

lemma distinct_remdups_adj_sorted:
  fixes xs :: "'a::linorder list"
  shows "sorted xs \<Longrightarrow> distinct (remdups_adj xs)"
proof (induction xs rule: remdups_adj.induct)
  case (3 x y xs)
  then show ?case by (cases "x = y") (auto simp: remdups_adj_set)
qed simp_all

lemma remdups_adj_sort:
  fixes xs :: "'a::linorder list"
  shows "remdups_adj (sort xs) = sorted_list_of_set (set xs)"
  by (rule sorted_distinct_set_unique)
     (simp_all add: sorted_remdups_adj distinct_remdups_adj_sorted remdups_adj_set)

lemma std_unique_from_remdups_adj:
  assumes "\<And>a. same a a"
  shows "std_unique_from same k (remdups_adj xs) = std_unique_from same k xs"
proof (induction xs arbitrary: k rule: remdups_adj.induct)
  case (3 x y xs)
  show ?case
  proof (cases "x = y")
    case True
    with "3.IH"(1) [of k] "3.IH"(1) [of y] assms show ?thesis by simp
  next
    case False
    with "3.IH"(2) [of k] "3.IH"(2) [of x] show ?thesis by simp
  qed
qed simp_all

lemma std_unique_remdups_adj:
  assumes "\<And>a. same a a"
  shows "std_unique same (remdups_adj xs) = std_unique same xs"
proof (cases xs)
  case Nil
  then show ?thesis by simp
next
  case (Cons x ys)
  have a: "std_unique same zs = hd zs # std_unique_from same (hd zs) zs" if "zs \<noteq> []" for zs
    using that assms by (cases zs) simp_all
  have "std_unique same (remdups_adj xs) = hd xs # std_unique_from same (hd xs) (remdups_adj xs)"
    using a [of "remdups_adj xs"] Cons by (simp add: hd_remdups_adj)
  also have "\<dots> = hd xs # std_unique_from same (hd xs) xs"
    by (simp add: std_unique_from_remdups_adj [OF assms])
  also have "\<dots> = std_unique same xs"
    using a [of xs] Cons by simp
  finally show ?thesis .
qed

lemma std_unique_sort_set:
  fixes xs ys :: "'a::linorder list"
  assumes "\<And>a. same a a" and "set xs = set ys"
  shows "std_unique same (sort xs) = std_unique same (sort ys)"
proof -
  have "std_unique same (sort zs) = std_unique same (sorted_list_of_set (set zs))" for zs :: "'a list"
    using std_unique_remdups_adj [of same "sort zs"] assms(1) by (simp add: remdups_adj_sort)
  then show ?thesis using assms(2) by simp
qed

lemma values_equal_loop_refl: "values_equal_loop a a is"
  by (induction "is") simp_all

lemma dedupConstraints_set:
  assumes "set (constraints a) = set (constraints b)"
  shows "constraints (dedupConstraints X a) = constraints (dedupConstraints X b)"
  unfolding dedupConstraints_def
  using std_unique_sort_set [of "\<lambda>left right. values_equal_loop left right [0..<Cost_dim X]"
      "constraints a" "constraints b"] assms
  by (simp add: values_equal_loop_refl)


lemma sameSearch_probe:
  assumes "sameSearch a b"
  shows "probe_isShortest X a r = probe_isShortest X b r"
    and "necessaryByShortest X a r = necessaryByShortest X b r"
    and "edgesConnected X a = edgesConnected X b"
    and "shortcutOf X a = shortcutOf X b"
  using assms
  by (simp_all add: sameSearch_def probe_isShortest_def necessaryByShortest_def
      edgesConnected_def shortcutOf_def)

lemma testConfig_sameSearch:
  assumes ab: "sameSearch a b"
  shows "(\<exists>e. testConfig X c a = Inl e \<and> testConfig X c b = Inl e)
       \<or> (\<exists>a' b'. testConfig X c a = Inr (True, a') \<and> testConfig X c b = Inr (True, b')
             \<and> sameVerdict a' b')
       \<or> (\<exists>r. testConfig X c a
               = Inr (False, a\<lparr>currentCost := costs r, route := r,
                                constraints := constraints a @ [costs r]\<rparr>)
             \<and> testConfig X c b
               = Inr (False, b\<lparr>currentCost := costs r, route := r,
                                constraints := constraints b @ [costs r]\<rparr>))"
proof -
  from ab have eq: "ct_in b = ct_in a" "ct_out b = ct_out a" "shortcutCost b = shortcutCost a"
    and v: "sameVerdict a b"
    by (simp_all add: sameSearch_def)
  let ?probe = "findBestRoute X (he_end (ct_in a)) (he_end (ct_out a)) c"
  have pb: "findBestRoute X (he_end (ct_in b)) (he_end (ct_out b)) c = ?probe"
    by (simp add: eq)
  let ?a0 = "a\<lparr>stats := recordMaxValues (lpCount a) (length (constraints a)) (stats a)\<rparr>"
  let ?b0 = "b\<lparr>stats := recordMaxValues (lpCount b) (length (constraints b)) (stats b)\<rparr>"
  have v0: "sameVerdict ?a0 ?b0"
    using v by (simp add: sameVerdict_def recordMaxValues_def)
  show ?thesis
  proof (cases ?probe)
    case None
    then have "testConfig X c a = Inr (True, ?a0)" "testConfig X c b = Inr (True, ?b0)"
      using pb by (simp_all add: testConfig_noRoute)
    with v0 show ?thesis by blast
  next
    case (Some r)
    show ?thesis
    proof (cases "edges r = []")
      case True
      with Some have "testConfig X c a = Inr (True, ?a0)" "testConfig X c b = Inr (True, ?b0)"
        using pb by (simp_all add: testConfig_emptyRoute)
      with v0 show ?thesis by blast
    next
      case False
      let ?a3 = "a\<lparr>currentCost := costs r, route := r, constraints := constraints a @ [costs r]\<rparr>"
      let ?b3 = "b\<lparr>currentCost := costs r, route := r, constraints := constraints b @ [costs r]\<rparr>"
      note ta = testConfig_route [of X a c r, OF Some False]
      have "findBestRoute X (he_end (ct_in b)) (he_end (ct_out b)) c = Some r"
        using pb Some by simp
      note tb = testConfig_route [of X b c r, OF this False]
      note p = sameSearch_probe [OF ab]
      have v3: "sameVerdict ?a3 ?b3"
        using v by (simp add: sameVerdict_def)
      have conn3: "edgesConnected X ?a3 = edgesConnected X a" "edgesConnected X ?b3 = edgesConnected X b"
        by (simp_all add: edgesConnected_def)
      have sc3: "shortcutOf X ?a3 = shortcutOf X a" "shortcutOf X ?b3 = shortcutOf X b"
        by (simp_all add: shortcutOf_def)
      show ?thesis
      proof (cases "probe_isShortest X a r")
        case shortest: True
        show ?thesis
        proof (cases "necessaryByShortest X a r")
          case nsp: True
          show ?thesis
          proof (cases "edgesConnected X a")
            case True
            then have ca: "edgesConnected X ?a3" and cb: "edgesConnected X ?b3"
              using conn3 p(3) by simp_all
            have "sameVerdict
                (?a3\<lparr>stats := recordMaxValues (lpCount ?a3) (length (constraints ?a3))
                                 (countShortcut shortestPath (stats ?a3)),
                      shortcuts := shortcuts ?a3 @ [shortcutOf X ?a3]\<rparr>)
                (?b3\<lparr>stats := recordMaxValues (lpCount ?b3) (length (constraints ?b3))
                                 (countShortcut shortestPath (stats ?b3)),
                      shortcuts := shortcuts ?b3 @ [shortcutOf X ?b3]\<rparr>)"
              using v p(4) by (simp add: sameVerdict_def recordMaxValues_def shortcutOf_def eq)
            then show ?thesis
              unfolding ta tb using shortest nsp p
              by (simp add: storeShortcut_connected [OF ca] storeShortcut_connected [OF cb])
          next
            case False
            then have ca: "\<not> edgesConnected X ?a3" and cb: "\<not> edgesConnected X ?b3"
              using conn3 p(3) by simp_all
            show ?thesis
              unfolding ta tb using shortest nsp p
              by (simp add: storeShortcut_disconnected [OF ca] storeShortcut_disconnected [OF cb])
          qed
        next
          case False
          with shortest p v3 show ?thesis
            unfolding ta tb by simp
        qed
      next
        case notShortest: False
        show ?thesis
        proof (cases "isDominated (Cost_dim X) (shortcutCost a) (costs r)")
          case True
          with notShortest p v3 eq show ?thesis
            unfolding ta tb by simp
        next
          case False
          with notShortest p eq have "testConfig X c a = Inr (False, ?a3)" "testConfig X c b = Inr (False, ?b3)"
            unfolding ta tb by simp_all
          then show ?thesis by blast
        qed
      qed
    qed
  qed
qed


lemma lpStep_sameSearch:
  assumes ab: "sameSearch a b"
  shows "(\<exists>e. lpStep X a = Inl e \<and> lpStep X b = Inl e)
       \<or> (\<exists>a' b'. lpStep X a = Inr (True, a') \<and> lpStep X b = Inr (True, b') \<and> sameVerdict a' b')
       \<or> (\<exists>a' b'. lpStep X a = Inr (False, a') \<and> lpStep X b = Inr (False, b') \<and> sameSearch a' b')"
proof -
  from ab have cfg: "config b = config a" and v: "sameVerdict a b"
    by (simp_all add: sameSearch_def)
  from testConfig_sameSearch [OF ab, of X "config a"]
  consider
    (raises) e where "testConfig X (config a) a = Inl e" "testConfig X (config a) b = Inl e"
  | (finished) a' b' where "testConfig X (config a) a = Inr (True, a')"
      "testConfig X (config a) b = Inr (True, b')" "sameVerdict a' b'"
  | (inconclusive) r where
      "testConfig X (config a) a
         = Inr (False, a\<lparr>currentCost := costs r, route := r, constraints := constraints a @ [costs r]\<rparr>)"
      "testConfig X (config a) b
         = Inr (False, b\<lparr>currentCost := costs r, route := r, constraints := constraints b @ [costs r]\<rparr>)"
    by blast
  then show ?thesis
  proof cases
    case raises
    then show ?thesis by (simp add: lpStep_def cfg)
  next
    case finished
    then show ?thesis by (simp add: lpStep_def cfg)
  next
    case inconclusive
    let ?a3 = "a\<lparr>currentCost := costs r, route := r, constraints := constraints a @ [costs r]\<rparr>"
    let ?b3 = "b\<lparr>currentCost := costs r, route := r, constraints := constraints b @ [costs r]\<rparr>"
    let ?P = "lpPush X ?a3"
    have "set (constraints ?a3) = set (constraints ?b3)"
      using ab by (simp add: sameSearch_def)
    then have dd: "constraints (dedupConstraints X ?b3) = constraints (dedupConstraints X ?a3)"
      by (rule dedupConstraints_set [symmetric])
    have pb: "lpPush X ?b3 = ?P\<lparr>stats := stats b\<rparr>"
      unfolding lpPush_eq dd using ab
      by (cases a, cases b) (simp add: sameSearch_def sameVerdict_def)
    have stP: "stats ?P = stats a" and shP: "shortcuts ?P = shortcuts a"
      and inP: "ct_in ?P = ct_in a" "ct_out ?P = ct_out a"
      by (simp_all add: lpPush_eq)
    let ?solved = "lp_solve X (lp ?P)"
    let ?P5 = "?P\<lparr>lp := snd ?solved\<rparr>"
    have sa: "lpStep X a =
        (if \<not> fst ?solved
         then Inr (True, ?P5\<lparr>stats := recordMaxValues (lpCount ?P5) (length (constraints ?P5)) (stats ?P5)\<rparr>)
         else if Config_eq (lp_variableValues X (lp ?P5)) (config ?P5)
         then (case storeShortcut X
                      (if Cost_dot (currentCost ?P5) (config ?P5)
                            \<ge> Cost_dot (shortcutCost ?P5) (config ?P5) - COST_ACCURACY X
                       then repeatingConfig else unknownReason) ?P5 of
                 Inl e \<Rightarrow> Inl e | Inr s6 \<Rightarrow> Inr (True, s6))
         else Inr (False, ?P5\<lparr>config := lp_variableValues X (lp ?P5)\<rparr>))"
      unfolding lpStep_def inconclusive(1) by (simp add: Let_def)
    let ?Q5 = "?P\<lparr>stats := stats b, lp := snd ?solved\<rparr>"
    have sb: "lpStep X b =
        (if \<not> fst ?solved
         then Inr (True, ?Q5\<lparr>stats := recordMaxValues (lpCount ?Q5) (length (constraints ?Q5)) (stats ?Q5)\<rparr>)
         else if Config_eq (lp_variableValues X (lp ?Q5)) (config ?Q5)
         then (case storeShortcut X
                      (if Cost_dot (currentCost ?Q5) (config ?Q5)
                            \<ge> Cost_dot (shortcutCost ?Q5) (config ?Q5) - COST_ACCURACY X
                       then repeatingConfig else unknownReason) ?Q5 of
                 Inl e \<Rightarrow> Inl e | Inr s6 \<Rightarrow> Inr (True, s6))
         else Inr (False, ?Q5\<lparr>config := lp_variableValues X (lp ?Q5)\<rparr>))"
      unfolding lpStep_def cfg inconclusive(2) by (simp add: Let_def pb)
    have fQ: "lp ?Q5 = lp ?P5" "config ?Q5 = config ?P5" "currentCost ?Q5 = currentCost ?P5"
      "shortcutCost ?Q5 = shortcutCost ?P5" "lpCount ?Q5 = lpCount ?P5"
      "constraints ?Q5 = constraints ?P5" "shortcuts ?Q5 = shortcuts ?P5" "stats ?Q5 = stats b"
      "stats ?P5 = stats a" "shortcuts ?P5 = shortcuts a"
      by (simp_all add: stP shP)
    have connQ: "edgesConnected X ?Q5 = edgesConnected X ?P5" and scQ: "shortcutOf X ?Q5 = shortcutOf X ?P5"
      by (simp_all add: edgesConnected_def shortcutOf_def)
    show ?thesis
    proof (cases "fst ?solved")
      case False
      have "sameVerdict
          (?P5\<lparr>stats := recordMaxValues (lpCount ?P5) (length (constraints ?P5)) (stats ?P5)\<rparr>)
          (?Q5\<lparr>stats := recordMaxValues (lpCount ?Q5) (length (constraints ?Q5)) (stats ?Q5)\<rparr>)"
        using v by (simp add: sameVerdict_def recordMaxValues_def stP shP)
      with False show ?thesis unfolding sa sb by simp
    next
      case True
      show ?thesis
      proof (cases "Config_eq (lp_variableValues X (lp ?P5)) (config ?P5)")
        case fixed: True
        let ?t = "if Cost_dot (currentCost ?P5) (config ?P5)
                       \<ge> Cost_dot (shortcutCost ?P5) (config ?P5) - COST_ACCURACY X
                  then repeatingConfig else unknownReason"
        have sa': "lpStep X a = (case storeShortcut X ?t ?P5 of Inl e \<Rightarrow> Inl e | Inr s6 \<Rightarrow> Inr (True, s6))"
          unfolding sa using True fixed by simp
        have sb': "lpStep X b = (case storeShortcut X ?t ?Q5 of Inl e \<Rightarrow> Inl e | Inr s6 \<Rightarrow> Inr (True, s6))"
          unfolding sb fQ using True fixed by simp
        show ?thesis
        proof (cases "edgesConnected X ?P5")
          case conn: True
          then have connq: "edgesConnected X ?Q5" using connQ by simp
          have "sameVerdict
              (?P5\<lparr>stats := recordMaxValues (lpCount ?P5) (length (constraints ?P5))
                                (countShortcut ?t (stats ?P5)),
                    shortcuts := shortcuts ?P5 @ [shortcutOf X ?P5]\<rparr>)
              (?Q5\<lparr>stats := recordMaxValues (lpCount ?Q5) (length (constraints ?Q5))
                                (countShortcut ?t (stats ?Q5)),
                    shortcuts := shortcuts ?Q5 @ [shortcutOf X ?Q5]\<rparr>)"
            using v unfolding scQ
            by (cases ?t) (simp_all add: sameVerdict_def recordMaxValues_def stP shP)
          then show ?thesis
            unfolding sa' sb' storeShortcut_connected [OF conn] storeShortcut_connected [OF connq]
            by simp
        next
          case False
          then have nq: "\<not> edgesConnected X ?Q5" using connQ by simp
          show ?thesis
            unfolding sa' sb' storeShortcut_disconnected [OF False] storeShortcut_disconnected [OF nq]
            by simp
        qed
      next
        case False
        have "sameSearch (?P5\<lparr>config := lp_variableValues X (lp ?P5)\<rparr>)
                         (?Q5\<lparr>config := lp_variableValues X (lp ?Q5)\<rparr>)"
          using v by (simp add: sameSearch_def sameVerdict_def stP shP)
        with True False show ?thesis unfolding sa sb fQ by simp
      qed
    qed
  qed
qed


lemma sameVerdict_sym: "sameVerdict a b \<Longrightarrow> sameVerdict b a"
  by (simp add: sameVerdict_def)

lemma sameSearch_sym: "sameSearch a b \<Longrightarrow> sameSearch b a"
  by (simp add: sameSearch_def sameVerdict_def)

lemma lpLoop_sameSearch_Some:
  assumes "lpLoop X a = Some ra"
  shows "\<forall>b. sameSearch a b \<longrightarrow> (\<exists>rb. lpLoop X b = Some rb \<and> rel_sum (=) sameVerdict ra rb)"
proof (rule lpLoop.raw_induct
    [where P = "\<lambda>X a ra. \<forall>b. sameSearch a b \<longrightarrow>
                  (\<exists>rb. lpLoop X b = Some rb \<and> rel_sum (=) sameVerdict ra rb)",
     OF _ assms])
  fix loop :: "'a Externals \<Rightarrow> 'a ContractingThread \<Rightarrow> (error + 'a ContractingThread) option"
  fix X a ra
  assume IH: "\<And>X a ra. loop X a = Some ra \<Longrightarrow>
      \<forall>b. sameSearch a b \<longrightarrow> (\<exists>rb. lpLoop X b = Some rb \<and> rel_sum (=) sameVerdict ra rb)"
  assume eq: "(case lpStep X a of Inl e \<Rightarrow> Some (Inl e)
      | Inr (done, s') \<Rightarrow> if done then Some (Inr s') else loop X s') = Some ra"
  show "\<forall>b. sameSearch a b \<longrightarrow> (\<exists>rb. lpLoop X b = Some rb \<and> rel_sum (=) sameVerdict ra rb)"
  proof (intro allI impI)
    fix b
    assume ab: "sameSearch a b"
    from lpStep_sameSearch [OF ab, of X]
    consider
      (raises) e where "lpStep X a = Inl e" "lpStep X b = Inl e"
    | (leaves) a' b' where "lpStep X a = Inr (True, a')" "lpStep X b = Inr (True, b')"
        "sameVerdict a' b'"
    | (continues) a' b' where "lpStep X a = Inr (False, a')" "lpStep X b = Inr (False, b')"
        "sameSearch a' b'"
      by blast
    then show "\<exists>rb. lpLoop X b = Some rb \<and> rel_sum (=) sameVerdict ra rb"
    proof cases
      case raises
      with eq have "ra = Inl e" by simp
      moreover from raises have "lpLoop X b = Some (Inl e)"
        by (subst lpLoop.simps) simp
      ultimately show ?thesis by simp
    next
      case leaves
      with eq have "ra = Inr a'" by simp
      moreover from leaves have "lpLoop X b = Some (Inr b')"
        by (subst lpLoop.simps) simp
      ultimately show ?thesis using leaves(3) by simp
    next
      case continues
      with eq have "loop X a' = Some ra" by simp
      from IH [OF this] continues(3)
      obtain rb where "lpLoop X b' = Some rb" "rel_sum (=) sameVerdict ra rb" by blast
      moreover have "lpLoop X b = lpLoop X b'"
        by (rule lpLoop_continue [OF continues(2)])
      ultimately show ?thesis by simp
    qed
  qed
qed

lemma lpLoop_sameSearch:
  assumes "sameSearch a b"
  shows "rel_option (rel_sum (=) sameVerdict) (lpLoop X a) (lpLoop X b)"
proof (cases "lpLoop X a")
  case None
  show ?thesis
  proof (cases "lpLoop X b")
    case inner: None
    with None show ?thesis by simp
  next
    case (Some rb)
    from lpLoop_sameSearch_Some [OF Some] sameSearch_sym [OF assms] None
    show ?thesis by fastforce
  qed
next
  case (Some ra)
  from lpLoop_sameSearch_Some [OF Some] assms
  obtain rb where "lpLoop X b = Some rb" "rel_sum (=) sameVerdict ra rb" by blast
  with Some show ?thesis by simp
qed

lemma axisProbes_False:
  "axisProbes X is s = Inr (False, s') \<Longrightarrow>
     stats s' = stats s \<and> config s' = config s \<and> lp s' = lp s \<and> ct_in s' = ct_in s
     \<and> ct_out s' = ct_out s \<and> lpCount s' = lpCount s \<and> shortcuts s' = shortcuts s
     \<and> shortcutCost s' = shortcutCost s \<and> ct_set s' = ct_set s"
proof (induction "is" arbitrary: s)
  case Nil
  then show ?case by simp
next
  case (Cons i "is")
  show ?case
  proof (cases "testConfig X (unitConfig (Cost_dim X) i) s")
    case (Inl e)
    with Cons.prems show ?thesis by simp
  next
    case (Inr p)
    obtain d s1 where p: "p = (d, s1)" by (cases p)
    with Inr Cons.prems have d: "\<not> d" and rest: "axisProbes X is s1 = Inr (False, s')"
      by (auto split: if_splits)
    from Inr p d have "testConfig X (unitConfig (Cost_dim X) i) s = Inr (False, s1)" by simp
    from testConfig_False [OF this] obtain r where
      "s1 = s\<lparr>currentCost := costs r, route := r, constraints := constraints s @ [costs r]\<rparr>"
      by blast
    with Cons.IH [OF rest] show ?thesis by simp
  qed
qed

text \<open>
  Claim C9, as the code has it. A warm-started witness search skips the axis probes and
  enters the main loop with the buffer of the previous pair. It agrees with the cold
  start of the same pair (both never leave the loop, or both raise the same exception, or
  both return with the same shortcuts and the same shortcut counters) when the axis probes
  of the cold start are all inconclusive and leave a buffer with the same set of cost
  vectors as the one carried over. The two threads are taken with the same shortcuts,
  counters, solver state and selected set before the pair.
\<close>

theorem warm_start_agrees:
  assumes warm: "isWarm pair sW" and cold: "\<not> isWarm pair sC"
      and same: "sameVerdict sC sW" "lp sC = lp sW" "ct_set sC = ct_set sW"
      and probes: "axisProbes X [0..<Cost_dim X] (startPair X pair (sC\<lparr>constraints := []\<rparr>))
                     = Inr (False, sA)"
      and buffer: "set (constraints sA) = set (constraints sW)"
  shows "rel_option (rel_sum (=) sameVerdict) (processPair X pair sC) (processPair X pair sW)"
proof -
  note f = axisProbes_False [OF probes]
  have "sameSearch (sA\<lparr>lpCount := 0\<rparr>) ((startPair X pair sW)\<lparr>lpCount := 0\<rparr>)"
    using f same buffer
    by (simp add: sameSearch_def sameVerdict_def startPair_def Let_def)
  from lpLoop_sameSearch [OF this, of X] show ?thesis
    using warm cold probes by (simp add: processPair_def Let_def)
qed

theorem warm_start_agrees_witness:
  "rel_option (rel_sum (=) sameVerdict)
     (processPair (ex_X (ex_route [0, 3] [5, 6] 1) (ex_route [3, 0] [2, 3] 1) True) ex_pairB
        (ex_thread 9 []))
     (processPair (ex_X (ex_route [0, 3] [5, 6] 1) (ex_route [3, 0] [2, 3] 1) True) ex_pairB
        (ex_thread 0 [[3, 0], [0, 3], [3, 0]]))
   \<and> ex_emitted (processPair (ex_X (ex_route [0, 3] [5, 6] 1) (ex_route [3, 0] [2, 3] 1) True)
        ex_pairB (ex_thread 9 [])) = Some (Inr [Some (0, 1)])
   \<and> ex_emitted (processPair (ex_X (ex_route [0, 3] [5, 6] 1) (ex_route [3, 0] [2, 3] 1) True)
        ex_pairB (ex_thread 0 [[3, 0], [0, 3], [3, 0]])) = Some (Inr [Some (0, 1)])"
proof -
  let ?X = "ex_X (ex_route [0, 3] [5, 6] 1) (ex_route [3, 0] [2, 3] 1) True"
  let ?sC = "ex_thread 9 []" and ?sW = "ex_thread 0 [[3, 0], [0, 3], [3, 0]]"
  let ?probes = "axisProbes ?X [0..<Cost_dim ?X] (startPair ?X ex_pairB (?sC\<lparr>constraints := []\<rparr>))"
  let ?sA = "snd (projr ?probes)"
  have warm: "isWarm ex_pairB ?sW" and cold: "\<not> isWarm ex_pairB ?sC"
    by (simp_all add: isWarm_def ex_pairB_def ex_thread_def)
  have same: "sameVerdict ?sC ?sW" "lp ?sC = lp ?sW" "ct_set ?sC = ct_set ?sW"
    by (simp_all add: sameVerdict_def ex_thread_def)
  have "case ?probes of Inl e \<Rightarrow> False | Inr p \<Rightarrow> \<not> fst p"
    by code_simp
  then have probes: "?probes = Inr (False, ?sA)"
    by (cases ?probes) auto
  have buffer: "set (constraints ?sA) = set (constraints ?sW)"
    by code_simp
  have a: "rel_option (rel_sum (=) sameVerdict)
     (processPair ?X ex_pairB ?sC) (processPair ?X ex_pairB ?sW)"
    by (rule warm_start_agrees [OF warm cold same probes buffer])
  have b: "ex_emitted (processPair ?X ex_pairB ?sC) = Some (Inr [Some (0, 1)])"
    by code_simp
  have c: "ex_emitted (processPair ?X ex_pairB ?sW) = Some (Inr [Some (0, 1)])"
    by code_simp
  from a b c show ?thesis by blast
qed


text \<open>
  Claim C9 as stated fails. Under the first unit vector the probe answers the route over
  the contracted node 1 itself, of cost \<open>(2, 2)\<close>, one of two co-optimal paths; under every
  other configuration it answers the route over node 3, of cost \<open>(2, 1)\<close>. The pair through
  node 5, of cost \<open>(3, 3)\<close>, is searched first and gets no shortcut. The pair through node 1
  has the same endpoints: warm-started after it, the search probes the uniform
  configuration first, finds the dominating route and emits nothing; cold-started, it
  probes the first unit vector first and emits the shortcut as a shortest path.
\<close>

theorem warm_start_counterexample:
  "ex_emitted (processPair (ex_X (ex_route [2, 2] [0, 1] 2) (ex_route [2, 1] [2, 3] 1) False)
      ex_pairA (ex_thread 9 [])) = Some (Inr [])
   \<and> isWarm ex_pairB
        (ex_after (processPair (ex_X (ex_route [2, 2] [0, 1] 2) (ex_route [2, 1] [2, 3] 1) False)
           ex_pairA (ex_thread 9 [])))
   \<and> ex_emitted (processPair (ex_X (ex_route [2, 2] [0, 1] 2) (ex_route [2, 1] [2, 3] 1) False)
        ex_pairB
        (ex_after (processPair (ex_X (ex_route [2, 2] [0, 1] 2) (ex_route [2, 1] [2, 3] 1) False)
           ex_pairA (ex_thread 9 [])))) = Some (Inr [])
   \<and> \<not> isWarm ex_pairB (ex_thread 9 [])
   \<and> constraints (ex_thread 9 []) = []
   \<and> ex_emitted (processPair (ex_X (ex_route [2, 2] [0, 1] 2) (ex_route [2, 1] [2, 3] 1) False)
        ex_pairB (ex_thread 9 [])) = Some (Inr [Some (0, 1)])"
  by code_simp

section \<open>Termination of the hierarchy driver\<close>

subsection \<open>Every level removes a node\<close>







subsection \<open>The driver returns when every level returns\<close>






subsection \<open>A thread returns when every witness search leaves its main loop\<close>





subsection \<open>A witness search that never leaves its main loop\<close>















end
